theory Spec2Isabelle
  imports Complex_Main "HOL-Library.Word" "HOL-Library.Sublist"
begin

section \<open>JavaScript string primitives used by the extension\<close>

text \<open>
  A JavaScript string is modelled as a \<open>string\<close>: a list of code units, restricted to
  the 8-bit range. The primitives below follow ECMAScript on that range.
\<close>

text \<open>\<open>s.startsWith(p)\<close>\<close>

definition str_startsWith :: "string \<Rightarrow> string \<Rightarrow> bool" where
  "str_startsWith s p = (take (length p) s = p)"

text \<open>\<open>s.includes(t)\<close>: \<open>t\<close> occurs at some position of \<open>s\<close>.\<close>

fun str_includes :: "string \<Rightarrow> string \<Rightarrow> bool" where
  "str_includes [] t = (t = [])"
| "str_includes (c # cs) t = (if str_startsWith (c # cs) t then True else str_includes cs t)"

text \<open>\<open>s.split(sep)\<close> for a one-character separator: never the empty array.\<close>

fun str_split :: "char \<Rightarrow> string \<Rightarrow> string list" where
  "str_split sep [] = [[]]"
| "str_split sep (c # cs) =
     (if c = sep then [] # str_split sep cs
      else (case str_split sep cs of
              [] \<Rightarrow> [[c]]
            | l # ls \<Rightarrow> (c # l) # ls))"

text \<open>\<open>parts.join(sep)\<close> for a one-character separator.\<close>

fun str_join :: "char \<Rightarrow> string list \<Rightarrow> string" where
  "str_join sep [] = []"
| "str_join sep [x] = x"
| "str_join sep (x # y # ys) = x @ sep # str_join sep (y # ys)"

text \<open>
  White space and line terminators of ECMAScript in the 8-bit range: TAB, LF, VT, FF,
  CR, SPACE and NBSP.
\<close>

definition isWhiteSpace :: "char \<Rightarrow> bool" where
  "isWhiteSpace c = (c \<in> set [CHR 0x09, CHR 0x0A, CHR 0x0B, CHR 0x0C, CHR 0x0D, CHR 0x20, CHR 0xA0])"

text \<open>\<open>s.trim()\<close>\<close>

definition str_trim :: "string \<Rightarrow> string" where
  "str_trim s = rev (dropWhile isWhiteSpace (rev (dropWhile isWhiteSpace s)))"

text \<open>\<open>s.substring(0, n)\<close>\<close>

definition str_substring0 :: "nat \<Rightarrow> string \<Rightarrow> string" where
  "str_substring0 n s = take n s"

section \<open>utils/media-detector.js: the classifier\<close>

text \<open>
  The alternatives of the four patterns \<open>MEDIA_PATTERNS\<close>; each pattern is
  \<open>/\.(e1|...|en)($|\?)/i\<close>.
\<close>

definition VIDEO :: "string list" where
  "VIDEO = [''mp4'', ''webm'', ''ogv'', ''mov'', ''avi'', ''mkv'', ''flv'', ''m4v'']"

definition AUDIO :: "string list" where
  "AUDIO = [''mp3'', ''wav'', ''m4a'', ''aac'', ''ogg'', ''opus'', ''flac'', ''wma'']"

definition STREAMING :: "string list" where
  "STREAMING = [''m3u8'', ''mpd'']"

definition SUBTITLES :: "string list" where
  "SUBTITLES = [''vtt'', ''srt'', ''ass'', ''ssa'']"

text \<open>
  Canonicalisation of a code unit under the \<open>i\<close> flag (no \<open>u\<close> flag): its upper case.
  In the 8-bit range only the ASCII letters change into a code unit that a letter of the
  patterns can canonicalise to.
\<close>

definition upperCase :: "(char \<times> char) list" where
  "upperCase = zip ''abcdefghijklmnopqrstuvwxyz'' ''ABCDEFGHIJKLMNOPQRSTUVWXYZ''"

definition canonicalize :: "char \<Rightarrow> char" where
  "canonicalize c = (case map_of upperCase c of Some upper \<Rightarrow> upper | None \<Rightarrow> c)"

text \<open>
  One alternative followed by \<open>($|\?)\<close>, matched from left to right against the input
  after the dot.
\<close>

fun matchAlternative :: "string \<Rightarrow> string \<Rightarrow> bool" where
  "matchAlternative r [] = (case r of [] \<Rightarrow> True | c # _ \<Rightarrow> c = CHR ''?'')"
| "matchAlternative [] (p # ps) = False"
| "matchAlternative (c # cs) (p # ps) =
     (if canonicalize c = canonicalize p then matchAlternative cs ps else False)"

text \<open>The whole pattern tried at one start position.\<close>

definition matchHere :: "string list \<Rightarrow> string \<Rightarrow> bool" where
  "matchHere exts s =
     (case s of
        [] \<Rightarrow> False
      | c # r \<Rightarrow> if c = CHR ''.'' then list_ex (matchAlternative r) exts else False)"

text \<open>\<open>pattern.test(url)\<close>: the start positions are tried from left to right.\<close>

fun regexTest :: "string list \<Rightarrow> string \<Rightarrow> bool" where
  "regexTest exts [] = matchHere exts []"
| "regexTest exts (c # cs) = (if matchHere exts (c # cs) then True else regexTest exts cs)"

definition getMediaType :: "string \<Rightarrow> string" where
  "getMediaType url =
     (if regexTest VIDEO url then ''video''
      else if regexTest AUDIO url then ''audio''
      else if regexTest STREAMING url then ''streaming''
      else if regexTest SUBTITLES url then ''subtitle''
      else ''unknown'')"

definition isMediaUrl :: "string \<Rightarrow> bool" where
  "isMediaUrl url = (getMediaType url \<noteq> ''unknown'')"

datatype hlsType = Master | Media

definition getHlsType :: "string \<Rightarrow> hlsType option" where
  "getHlsType content =
     (if str_includes content ''#EXT-X-STREAM-INF'' then Some Master
      else if str_includes content ''#EXT-X-TARGETDURATION'' then Some Media
      else None)"

text \<open>
  \<open>isProtectedUrl(url)\<close>; the argument is \<open>tab.url\<close>, which may be undefined
  (\<open>None\<close>); the empty string is falsy as well.
\<close>

definition isProtectedUrl :: "string option \<Rightarrow> bool" where
  "isProtectedUrl url =
     (case url of
        None \<Rightarrow> True
      | Some u \<Rightarrow>
          if u = [] then True
          else str_startsWith u ''chrome://'' \<or>
               str_startsWith u ''chrome-extension://'' \<or>
               str_startsWith u ''edge://'' \<or>
               str_startsWith u ''about:'' \<or>
               str_startsWith u ''view-source:'')"


section \<open>utils/url-utils.js and the merge step of the background script\<close>

text \<open>
  One entry of a result list. The fields \<open>url\<close>, \<open>type\<close>, \<open>source\<close> are set by
  every producer; \<open>timestamp\<close> only by the network listener, \<open>tagName\<close> only by the
  content script; \<open>size\<close>, \<open>hlsType\<close>, \<open>duration\<close> and \<open>suggestedMaster\<close> are added by
  enrichment. An absent field is \<open>None\<close>. (\<open>type\<close> and \<open>size\<close> are written
  \<open>mediaType\<close> and \<open>fileSize\<close>.)
\<close>

record mediaItem =
  url :: string
  mediaType :: string
  source :: string
  timestamp :: "nat option"
  tagName :: "string option"
  fileSize :: "int option"
  hlsType :: "hlsType option"
  duration :: "rat option"
  suggestedMaster :: "string option"

text \<open>\<open>deduplicateMedia\<close>: the callback of \<open>filter\<close>, with the set \<open>seen\<close> it updates.\<close>

fun filterSeen :: "string set \<Rightarrow> mediaItem list \<Rightarrow> mediaItem list" where
  "filterSeen seen [] = []"
| "filterSeen seen (item # rest) =
     (if url item \<in> seen then filterSeen seen rest
      else item # filterSeen (insert (url item) seen) rest)"

definition deduplicateMedia :: "mediaItem list \<Rightarrow> mediaItem list" where
  "deduplicateMedia medialist = filterSeen {} medialist"

text \<open>
  \<open>mergeAndDeduplicate\<close>: the helper \<open>addIfUnique\<close> acts on the pair
  \<open>(seenUrls, merged)\<close>; \<open>forEach\<close> is a left fold.
\<close>

fun addIfUnique :: "string set \<times> mediaItem list \<Rightarrow> mediaItem \<Rightarrow> string set \<times> mediaItem list" where
  "addIfUnique (seenUrls, merged) item =
     (if url item \<notin> seenUrls then (insert (url item) seenUrls, merged @ [item])
      else (seenUrls, merged))"

definition mergeAndDeduplicate :: "mediaItem list \<Rightarrow> mediaItem list \<Rightarrow> mediaItem list" where
  "mergeAndDeduplicate dom' network =
     snd (foldl addIfUnique (foldl addIfUnique ({}, []) dom') network)"

text \<open>
  The specification's reading of deduplication: the entries whose URL does not occur at
  an earlier position, in their order.
\<close>

definition firstOccurrences :: "mediaItem list \<Rightarrow> mediaItem list" where
  "firstOccurrences l =
     map (\<lambda>i. l ! i) (filter (\<lambda>i. url (l ! i) \<notin> url ` set (take i l)) [0..<length l])"

section \<open>The background script: the network cache\<close>

text \<open>\<open>tabMediaCache\<close>: a \<open>Map\<close> from tab id to the array of captured entries.\<close>

type_synonym tabMediaCache = "int \<rightharpoonup> mediaItem list"

text \<open>The \<open>details\<close> of a request, with the value \<open>Date.now()\<close> returns in the listener.\<close>

record details =
  tabId :: int
  requestUrl :: string
  now :: nat

text \<open>What a handler of the background script does to the outside.\<close>

datatype scanResponse = ScanError string | ScanResults "mediaItem list"

datatype effect =
    NewMediaDetected int string
  | TabsGet int
  | ExecuteScript int
  | ExtractDomMedia int
  | CacheGet int
  | ConsoleError string
  | SendResponse scanResponse

definition networkItem :: "details \<Rightarrow> mediaItem" where
  "networkItem d =
     \<lparr> url = requestUrl d, mediaType = getMediaType (requestUrl d), source = ''network'',
       timestamp = Some (now d), tagName = None, fileSize = None, hlsType = None,
       duration = None, suggestedMaster = None \<rparr>"

text \<open>The listener of \<open>chrome.webRequest.onBeforeRequest\<close>.\<close>

definition onBeforeRequest :: "tabMediaCache \<Rightarrow> details \<Rightarrow> tabMediaCache \<times> effect list" where
  "onBeforeRequest cache d =
     (if tabId d < 0 then (cache, [])
      else if str_startsWith (requestUrl d) ''blob:'' then (cache, [])
      else if isMediaUrl (requestUrl d) then
        (let entries = (case cache (tabId d) of None \<Rightarrow> [] | Some l \<Rightarrow> l) in
         if \<not> list_ex (\<lambda>item. url item = requestUrl d) entries then
           (let pushed = entries @ [networkItem d];
                kept = (if length pushed > 100 then tl pushed else pushed)
            in (cache(tabId d \<mapsto> kept), [NewMediaDetected (tabId d) (requestUrl d)]))
         else (cache(tabId d \<mapsto> entries), []))
      else (cache, []))"

text \<open>The listener of \<open>chrome.tabs.onRemoved\<close>.\<close>

definition onRemoved :: "tabMediaCache \<Rightarrow> int \<Rightarrow> tabMediaCache" where
  "onRemoved cache t = cache(t := None)"


section \<open>The host: URL parsing, HTTP, tabs\<close>

type_synonym byte = "8 word"

text \<open>
  A response as the code reads it: \<open>response.ok\<close>, the string \<open>response.text()\<close>
  resolves to, the bytes \<open>response.arrayBuffer()\<close> resolves to, and the header
  \<open>content-length\<close>.
\<close>

record response =
  ok :: bool
  body_text :: string
  array_buffer :: "byte list"
  content_length :: "string option"

text \<open>
  The outcome of \<open>await fetch(...)\<close> together with the read of the body that follows
  it: \<open>Rejected\<close> when either promise rejects (network failure, aborted signal).
\<close>

datatype fetchOutcome = Rejected | Response response

record tab =
  tabUrl :: "string option"

text \<open>
  The browser, as the code calls it.
  \<^item> \<open>resolveUrl rel base\<close> is \<open>new URL(rel, base).href\<close>, \<open>None\<close> when the constructor
    throws;
  \<^item> \<open>parseUrl u\<close> is \<open>(origin, pathname)\<close> of \<open>new URL(u)\<close>, \<open>None\<close> when it throws;
  \<^item> \<open>httpGet k u\<close> is the outcome of the \<open>k\<close>-th \<open>fetch(u)\<close> of one asynchronous call
    (counted from 0), \<open>httpHead u\<close> that of its \<open>HEAD\<close> request (the 2 s timeout aborts it
    into \<open>Rejected\<close>);
  \<^item> \<open>tabsGet t\<close> is the tab \<open>chrome.tabs.get\<close> passes to its callback, \<open>None\<close> when
    \<open>chrome.runtime.lastError\<close> is set or the tab is missing;
  \<^item> \<open>executeScript t\<close> tells whether the promise of \<open>chrome.scripting.executeScript\<close>
    resolves;
  \<^item> \<open>extractDomMedia t\<close> is the answer of the content script, \<open>None\<close> when it is
    undefined.
\<close>

record host =
  resolveUrl :: "string \<Rightarrow> string \<Rightarrow> string option"
  parseUrl :: "string \<Rightarrow> (string \<times> string) option"
  httpGet :: "nat \<Rightarrow> string \<Rightarrow> fetchOutcome"
  httpHead :: "string \<Rightarrow> fetchOutcome"
  tabsGet :: "int \<Rightarrow> tab option"
  executeScript :: "int \<Rightarrow> bool"
  extractDomMedia :: "int \<Rightarrow> mediaItem list option"

section \<open>The background script: enrichment\<close>

definition isDigit :: "char \<Rightarrow> bool" where
  "isDigit c = (c \<in> set ''0123456789'')"

definition digitValue :: "char \<Rightarrow> nat" where
  "digitValue c = length (takeWhile (\<lambda>d. d \<noteq> c) ''0123456789'')"

text \<open>The value of a string of decimal digits.\<close>

definition digitsValue :: "string \<Rightarrow> nat" where
  "digitsValue ds = foldl (\<lambda>acc c. 10 * acc + digitValue c) 0 ds"

text \<open>
  \<open>parseInt(s, 10)\<close>: leading white space, a sign, then the longest run of digits;
  \<open>None\<close> is \<open>NaN\<close>. Numbers are exact here.
\<close>

definition parseInt :: "string \<Rightarrow> int option" where
  "parseInt s =
     (let t = dropWhile isWhiteSpace s;
          neg = (case t of [] \<Rightarrow> False | c # _ \<Rightarrow> c = CHR ''-'');
          r = (case t of [] \<Rightarrow> [] | c # cs \<Rightarrow> if c = CHR ''-'' \<or> c = CHR ''+'' then cs else t);
          ds = takeWhile isDigit r
      in if ds = [] then None
         else Some (if neg then - int (digitsValue ds) else int (digitsValue ds)))"

text \<open>
  \<open>fetchFileSize\<close>: \<open>None\<close> stands for both \<open>null\<close> and \<open>NaN\<close>, which the only caller
  treats alike (\<open>if (size)\<close>).
\<close>

definition fetchFileSize :: "host \<Rightarrow> string \<Rightarrow> int option" where
  "fetchFileSize h u =
     (case httpHead h u of
        Rejected \<Rightarrow> None
      | Response r \<Rightarrow>
          if ok r then
            (case content_length r of
               None \<Rightarrow> None
             | Some cl \<Rightarrow> if cl = [] then None else parseInt cl)
          else None)"

text \<open>
  \<open>fetchHlsContent\<close>, as the \<open>k\<close>-th request of the call: the first 1024 code units of
  the body, or \<open>null\<close>.
\<close>

definition fetchHlsContent :: "host \<Rightarrow> nat \<Rightarrow> string \<Rightarrow> string option" where
  "fetchHlsContent h k u =
     (case httpGet h k u of
        Rejected \<Rightarrow> None
      | Response r \<Rightarrow> if ok r then Some (str_substring0 1024 (body_text r)) else None)"

text \<open>
  A JavaScript number: an exact rational, or \<open>NaN\<close> (\<open>None\<close>). Rounding to a double
  and overflow to \<open>Infinity\<close> are left out.
\<close>

type_synonym number = "rat option"

definition num_add :: "number \<Rightarrow> number \<Rightarrow> number" where
  "num_add a b = (case a of None \<Rightarrow> None | Some x \<Rightarrow> (case b of None \<Rightarrow> None | Some y \<Rightarrow> Some (x + y)))"

definition isDigitOrDot :: "char \<Rightarrow> bool" where
  "isDigitOrDot c = (isDigit c \<or> c = CHR ''.'')"

text \<open>
  \<open>parseFloat\<close> on a string of digits and dots: the longest prefix that is a decimal
  literal (\<open>12\<close>, \<open>12.\<close>, \<open>12.5\<close>, \<open>.5\<close>); \<open>NaN\<close> when there is none.
\<close>

definition parseFloat :: "string \<Rightarrow> number" where
  "parseFloat s =
     (let ip = takeWhile isDigit s;
          r = dropWhile isDigit s;
          fp = (case r of [] \<Rightarrow> [] | c # cs \<Rightarrow> if c = CHR ''.'' then takeWhile isDigit cs else [])
      in if ip = [] \<and> fp = [] then None
         else Some (of_nat (digitsValue ip) + of_nat (digitsValue fp) / 10 ^ length fp))"

text \<open>
  \<open>line.match(/#EXTINF:([\d\.]+)/)\<close>: the capture group of the leftmost match, \<open>None\<close>
  when there is no match.
\<close>

fun matchExtinf :: "string \<Rightarrow> string option" where
  "matchExtinf [] = None"
| "matchExtinf (c # cs) =
     (if str_startsWith (c # cs) ''#EXTINF:'' \<and> takeWhile isDigitOrDot (drop 8 (c # cs)) \<noteq> []
      then Some (takeWhile isDigitOrDot (drop 8 (c # cs)))
      else matchExtinf cs)"

text \<open>The loop of \<open>calculateHlsDuration\<close> over the lines, with \<open>totalSeconds\<close>.\<close>

fun sumDurations :: "number \<Rightarrow> string list \<Rightarrow> number" where
  "sumDurations totalSeconds [] = totalSeconds"
| "sumDurations totalSeconds (line # rest) =
     (if str_startsWith line ''#EXTINF:'' then
        (case matchExtinf line of
           Some m \<Rightarrow> sumDurations (num_add totalSeconds (parseFloat m)) rest
         | None \<Rightarrow> sumDurations totalSeconds rest)
      else sumDurations totalSeconds rest)"

definition calculateHlsDuration :: "string \<Rightarrow> number" where
  "calculateHlsDuration manifestContent =
     sumDurations (Some 0) (str_split CHR 0x0A manifestContent)"

text \<open>
  The two nested loops that \<open>resolveFirstStreamUrl\<close> and \<open>downloadHlsStream\<close> share:
  the inner one looks for the first line after position \<open>i\<close> that is not blank and does
  not start with \<open>#\<close>; the outer one for a line that starts with
  \<open>#EXT-X-STREAM-INF\<close> and has such a follower.
\<close>

fun nextStreamPath :: "string list \<Rightarrow> string option" where
  "nextStreamPath [] = None"
| "nextStreamPath (l # ls) =
     (if str_trim l \<noteq> [] \<and> \<not> str_startsWith l ''#'' then Some (str_trim l)
      else nextStreamPath ls)"

fun firstStreamPath :: "string list \<Rightarrow> string option" where
  "firstStreamPath [] = None"
| "firstStreamPath (l # ls) =
     (if str_startsWith l ''#EXT-X-STREAM-INF'' then
        (case nextStreamPath ls of
           Some streamPath \<Rightarrow> Some streamPath
         | None \<Rightarrow> firstStreamPath ls)
      else firstStreamPath ls)"

definition resolveFirstStreamUrl :: "host \<Rightarrow> string \<Rightarrow> string \<Rightarrow> string option" where
  "resolveFirstStreamUrl h masterUrl masterContent =
     (case firstStreamPath (str_split CHR 0x0A masterContent) of
        None \<Rightarrow> None
      | Some streamPath \<Rightarrow> resolveUrl h streamPath masterUrl)"

definition suggestMasterUrl :: "host \<Rightarrow> string \<Rightarrow> string option" where
  "suggestMasterUrl h mediaUrl =
     (case parseUrl h mediaUrl of
        None \<Rightarrow> None
      | Some (origin, pathname) \<Rightarrow>
          (let parts = butlast (str_split CHR ''/'' pathname);
               baseDir = str_join CHR ''/'' parts
           in Some (origin @ baseDir @ ''/'' @ ''master.m3u8'')))"

text \<open>\<open>duration > 0\<close>\<close>

definition num_positive :: "number \<Rightarrow> bool" where
  "num_positive d = (case d of None \<Rightarrow> False | Some x \<Rightarrow> x > 0)"

text \<open>The body of the callback \<open>enrichResults\<close> maps over the items.\<close>

definition enrichSize :: "host \<Rightarrow> mediaItem \<Rightarrow> mediaItem" where
  "enrichSize h item =
     (if mediaType item = ''video'' \<or> mediaType item = ''audio'' then
        (case fetchFileSize h (url item) of
           None \<Rightarrow> item
         | Some sz \<Rightarrow> if sz \<noteq> 0 then item\<lparr>fileSize := Some sz\<rparr> else item)
      else item)"

definition hlsDuration :: "host \<Rightarrow> mediaItem \<Rightarrow> hlsType \<Rightarrow> string \<Rightarrow> number" where
  "hlsDuration h item t content =
     (case t of
        Media \<Rightarrow> calculateHlsDuration content
      | Master \<Rightarrow>
          (case resolveFirstStreamUrl h (url item) content of
             None \<Rightarrow> Some 0
           | Some mediaUrl \<Rightarrow>
               if mediaUrl = [] then Some 0
               else
                 (case fetchHlsContent h 1 mediaUrl of
                    None \<Rightarrow> Some 0
                  | Some mediaContent \<Rightarrow>
                      if mediaContent \<noteq> [] then calculateHlsDuration mediaContent else Some 0)))"

definition enrichHls :: "host \<Rightarrow> mediaItem \<Rightarrow> mediaItem" where
  "enrichHls h item =
     (if mediaType item = ''streaming'' \<and> str_includes (url item) ''.m3u8'' then
        (case fetchHlsContent h 0 (url item) of
           None \<Rightarrow> item
         | Some content \<Rightarrow>
             if content = [] then item
             else
               (case getHlsType content of
                  None \<Rightarrow> item
                | Some t \<Rightarrow>
                    (let item1 = item\<lparr>hlsType := Some t\<rparr>;
                         d = hlsDuration h item t content;
                         item2 = (if num_positive d then item1\<lparr>duration := d\<rparr> else item1)
                     in if t = Media then
                          (case suggestMasterUrl h (url item) of
                             None \<Rightarrow> item2
                           | Some suggested \<Rightarrow>
                               if suggested \<noteq> [] then item2\<lparr>suggestedMaster := Some suggested\<rparr>
                               else item2)
                        else item2)))
      else item)"

definition enrichItem :: "host \<Rightarrow> mediaItem \<Rightarrow> mediaItem" where
  "enrichItem h item = enrichHls h (enrichSize h item)"

definition enrichResults :: "host \<Rightarrow> mediaItem list \<Rightarrow> mediaItem list" where
  "enrichResults h results = map (enrichItem h) results"


section \<open>The background script: the handler of \<open>scan_page\<close>\<close>

text \<open>The message and the tab id of its sender (\<open>sender?.tab?.id\<close>).\<close>

record message =
  action :: string
  msgTabId :: "int option"

definition scanTabId :: "message \<Rightarrow> int option \<Rightarrow> int option" where
  "scanTabId msg senderTabId =
     (case msgTabId msg of
        None \<Rightarrow> senderTabId
      | Some t \<Rightarrow> if t \<noteq> 0 then Some t else senderTabId)"

text \<open>
  Enrichment assigns to the fields of the items it is given, and the items of the merged
  list that came from the cache are the cache's own objects: after a scan the entries of
  the cache that survived the merge carry the enriched fields.
\<close>

fun enrichStored :: "host \<Rightarrow> string set \<Rightarrow> mediaItem list \<Rightarrow> mediaItem list" where
  "enrichStored h seen [] = []"
| "enrichStored h seen (item # rest) =
     (if url item \<in> seen then item # enrichStored h seen rest
      else enrichItem h item # enrichStored h (insert (url item) seen) rest)"

text \<open>
  The listener of \<open>chrome.runtime.onMessage\<close>, with its callbacks run to the end: the
  cache afterwards and what the handler did, in order.
\<close>

definition scanPage ::
  "host \<Rightarrow> tabMediaCache \<Rightarrow> message \<Rightarrow> int option \<Rightarrow> tabMediaCache \<times> effect list" where
  "scanPage h cache msg senderTabId =
     (if action msg = ''scan_page'' then
        (case scanTabId msg senderTabId of
           None \<Rightarrow> (cache, [SendResponse (ScanError ''No tab ID specified'')])
         | Some t \<Rightarrow>
             if t = 0 then (cache, [SendResponse (ScanError ''No tab ID specified'')])
             else
               (case tabsGet h t of
                  None \<Rightarrow>
                    (cache, [TabsGet t, SendResponse (ScanError ''Unable to access tab information.'')])
                | Some tb \<Rightarrow>
                    if isProtectedUrl (tabUrl tb) then
                      (cache, [TabsGet t, SendResponse (ScanError
                         ''Extension cannot scan protected browser pages (like chrome:// URLs).'')])
                    else if executeScript h t then
                      (let domResults = (case extractDomMedia h t of None \<Rightarrow> [] | Some l \<Rightarrow> l);
                           networkResults = (case cache t of None \<Rightarrow> [] | Some l \<Rightarrow> l);
                           combined = mergeAndDeduplicate domResults networkResults;
                           enriched = enrichResults h combined;
                           cache' = (case cache t of
                                       None \<Rightarrow> cache
                                     | Some l \<Rightarrow> cache(t \<mapsto> enrichStored h (url ` set domResults) l))
                       in (cache', [TabsGet t, ExecuteScript t, ExtractDomMedia t, CacheGet t,
                                    SendResponse (ScanResults enriched)]))
                    else
                      (cache, [TabsGet t, ExecuteScript t, ConsoleError ''Execution failed: '',
                               SendResponse (ScanError
                                 ''Failed to scan page. Extension may not have access to this page.'')])))
      else (cache, []))"

text \<open>
  Everything that touches the cache: a request seen by the network listener, the removal
  of a tab, a scan. \<open>cacheAfter\<close> is the cache after a sequence of them, from the empty
  \<open>Map\<close> the script starts with.
\<close>

datatype cacheEvent = BeforeRequest details | Removed int | Scan host message "int option"

fun cacheStep :: "tabMediaCache \<Rightarrow> cacheEvent \<Rightarrow> tabMediaCache" where
  "cacheStep cache (BeforeRequest d) = fst (onBeforeRequest cache d)"
| "cacheStep cache (Removed t) = onRemoved cache t"
| "cacheStep cache (Scan h msg senderTabId) = fst (scanPage h cache msg senderTabId)"

definition cacheAfter :: "cacheEvent list \<Rightarrow> tabMediaCache" where
  "cacheAfter evs = foldl cacheStep Map.empty evs"

text \<open>The URLs requested in tab \<open>t\<close>, in the order of the requests.\<close>

fun requestUrlsOf :: "int \<Rightarrow> cacheEvent list \<Rightarrow> string list" where
  "requestUrlsOf t [] = []"
| "requestUrlsOf t (BeforeRequest d # evs) =
     (if tabId d = t then requestUrl d # requestUrlsOf t evs else requestUrlsOf t evs)"
| "requestUrlsOf t (_ # evs) = requestUrlsOf t evs"

section \<open>The HLS downloader\<close>

text \<open>The errors \<open>downloadHlsStream\<close> throws, named by their messages.\<close>

datatype error =
    FailedToFetchManifest
  | FailedToFetchMediaPlaylist
  | NoStreamsFoundInMasterPlaylist
  | NoSegmentsFoundInManifest
  | DownloadAborted
  | FailedToFetchSegment nat
  | HostException

text \<open>
  What a run does to the outside, in order: a \<open>fetch\<close> it starts, a call of
  \<open>onProgress\<close>, a line on the console, and the click on the anchor that saves the
  \<open>Blob\<close> under a file name.
\<close>

datatype event =
    Fetch string
  | Progress nat nat
  | Console string
  | Download string "byte list"

text \<open>
  The \<open>AbortSignal\<close>: \<open>None\<close> when the caller passes none; otherwise the value
  \<open>signal.aborted\<close> has when iteration \<open>i\<close> of the segment loop reads it.
\<close>

type_synonym signal = "(nat \<Rightarrow> bool) option"

definition aborted :: "signal \<Rightarrow> nat \<Rightarrow> bool" where
  "aborted sig i = (case sig of None \<Rightarrow> False | Some f \<Rightarrow> f i)"

definition str_endsWith :: "string \<Rightarrow> string \<Rightarrow> bool" where
  "str_endsWith s p = (length p \<le> length s \<and> drop (length s - length p) s = p)"

text \<open>
  Steps 1 and 2: the manifest, and the media playlist behind a master playlist. The
  result is the current URL and the text of the playlist, with the number of requests
  made.
\<close>

definition fetchPlaylist ::
  "host \<Rightarrow> string \<Rightarrow> event list \<times> (error + string \<times> string \<times> nat)" where
  "fetchPlaylist h u =
     (case httpGet h 0 u of
        Rejected \<Rightarrow> ([Fetch u], Inl HostException)
      | Response r \<Rightarrow>
          if \<not> ok r then ([Fetch u], Inl FailedToFetchManifest)
          else if str_includes (body_text r) ''#EXT-X-STREAM-INF'' then
            (case firstStreamPath (str_split CHR 0x0A (body_text r)) of
               None \<Rightarrow> ([Fetch u], Inl NoStreamsFoundInMasterPlaylist)
             | Some streamPath \<Rightarrow>
                 (case resolveUrl h streamPath u of
                    None \<Rightarrow> ([Fetch u], Inl HostException)
                  | Some currentUrl \<Rightarrow>
                      (case httpGet h 1 currentUrl of
                         Rejected \<Rightarrow> ([Fetch u, Fetch currentUrl], Inl HostException)
                       | Response r2 \<Rightarrow>
                           if \<not> ok r2 then
                             ([Fetch u, Fetch currentUrl], Inl FailedToFetchMediaPlaylist)
                           else ([Fetch u, Fetch currentUrl], Inr (currentUrl, body_text r2, 2)))))
          else ([Fetch u], Inr (u, body_text r, 1)))"

text \<open>Step 3: the loop over the lines, with the array \<open>segmentUrls\<close> and the console.\<close>

fun extractSegments :: "host \<Rightarrow> string \<Rightarrow> string list \<Rightarrow> string list \<times> event list" where
  "extractSegments h currentUrl [] = ([], [])"
| "extractSegments h currentUrl (line # rest) =
     (case extractSegments h currentUrl rest of
        (segmentUrls, logs) \<Rightarrow>
          if str_trim line \<noteq> [] \<and> \<not> str_startsWith line ''#'' then
            (case resolveUrl h (str_trim line) currentUrl of
               Some href \<Rightarrow> (href # segmentUrls, logs)
             | None \<Rightarrow> (segmentUrls, Console ''Invalid segment URL:'' # logs))
          else (segmentUrls, logs))"

text \<open>
  The download loop from iteration \<open>i\<close> on; \<open>c\<close> requests were made before the loop,
  \<open>segments\<close> holds the buffers pushed so far.
\<close>

function fetchSegments ::
  "host \<Rightarrow> signal \<Rightarrow> bool \<Rightarrow> string list \<Rightarrow> nat \<Rightarrow> nat \<Rightarrow> byte list list
   \<Rightarrow> event list \<times> (error + byte list list)" where
  "fetchSegments h sig onProgress segmentUrls c i segments =
     (if i < length segmentUrls then
        if aborted sig i then ([], Inl DownloadAborted)
        else
          (let started = (if onProgress then [Progress i (length segmentUrls)] else [])
                           @ [Fetch (segmentUrls ! i)]
           in case httpGet h (c + i) (segmentUrls ! i) of
                Rejected \<Rightarrow> (started, Inl HostException)
              | Response segRes \<Rightarrow>
                  if \<not> ok segRes then (started, Inl (FailedToFetchSegment i))
                  else
                    (case fetchSegments h sig onProgress segmentUrls c (Suc i)
                            (segments @ [array_buffer segRes]) of
                       (later, res) \<Rightarrow> (started @ later, res)))
      else ([], Inr segments))"
  by pat_completeness auto
termination
  by (relation "measure (\<lambda>(h, sig, onProgress, segmentUrls, c, i, segments). length segmentUrls - i)") auto

text \<open>
  \<open>downloadHlsStream(url, filename, onProgress, signal)\<close>; \<open>onProgress\<close> tells whether
  the caller passed a callback. The result is \<open>true\<close> or the error thrown; the
  \<open>catch\<close> block logs the error and throws it again.
\<close>

definition downloadBody ::
  "host \<Rightarrow> string \<Rightarrow> string \<Rightarrow> bool \<Rightarrow> signal \<Rightarrow> event list \<times> (error + bool)" where
  "downloadBody h u filename onProgress sig =
     (case fetchPlaylist h u of
        (t1, Inl e) \<Rightarrow> (t1, Inl e)
      | (t1, Inr (currentUrl, text, c)) \<Rightarrow>
          (case extractSegments h currentUrl (str_split CHR 0x0A text) of
             (segmentUrls, logs) \<Rightarrow>
               if length segmentUrls = 0 then (t1 @ logs, Inl NoSegmentsFoundInManifest)
               else
                 (case fetchSegments h sig onProgress segmentUrls c 0 [] of
                    (t2, Inl e) \<Rightarrow> (t1 @ logs @ t2, Inl e)
                  | (t2, Inr segments) \<Rightarrow>
                      (t1 @ logs @ t2
                         @ (if onProgress then [Progress (length segmentUrls) (length segmentUrls)]
                            else [])
                         @ [Download (if str_endsWith filename ''.ts'' then filename
                                      else filename @ ''.ts'')
                                     (concat segments)],
                       Inr True))))"

definition downloadHlsStream ::
  "host \<Rightarrow> string \<Rightarrow> string \<Rightarrow> bool \<Rightarrow> signal \<Rightarrow> event list \<times> (error + bool)" where
  "downloadHlsStream h u filename onProgress sig =
     (case downloadBody h u filename onProgress sig of
        (t, Inl e) \<Rightarrow> (t @ [Console ''HLS Download Error:''], Inl e)
      | (t, Inr b) \<Rightarrow> (t, Inr b))"

text \<open>What the theorems read off a run.\<close>

definition fetchesOf :: "event list \<Rightarrow> string list" where
  "fetchesOf t = concat (map (\<lambda>e. case e of Fetch u \<Rightarrow> [u] | _ \<Rightarrow> []) t)"

definition progressOf :: "event list \<Rightarrow> (nat \<times> nat) list" where
  "progressOf t = concat (map (\<lambda>e. case e of Progress k n \<Rightarrow> [(k, n)] | _ \<Rightarrow> []) t)"

definition payloadsOf :: "event list \<Rightarrow> byte list list" where
  "payloadsOf t = concat (map (\<lambda>e. case e of Download f b \<Rightarrow> [b] | _ \<Rightarrow> []) t)"

text \<open>The lines of a playlist that step 3 takes for segment references.\<close>

definition isSegmentLine :: "string \<Rightarrow> bool" where
  "isSegmentLine line = (str_trim line \<noteq> [] \<and> \<not> str_startsWith line ''#'')"

text \<open>
  The specification's reading of the classifier: the URL has a dot, one of the
  extensions in any letter case, and then ends or goes on with a question mark.
\<close>

definition hasExtension :: "string list \<Rightarrow> string \<Rightarrow> bool" where
  "hasExtension exts u =
     (\<exists>pre e post e'. u = pre @ CHR ''.'' # e @ post \<and> e' \<in> set exts \<and>
        map canonicalize e = map canonicalize e' \<and>
        (post = [] \<or> (\<exists>t. post = CHR ''?'' # t)))"


section \<open>Auxiliary notions of the proofs\<close>

text \<open>
  The invariant of the cache: no tab has more than 100 entries, and the URLs of a tab's
  entries are, in order, among the URLs requested in that tab.
\<close>

definition cacheInv :: "cacheEvent list \<Rightarrow> tabMediaCache \<Rightarrow> bool" where
  "cacheInv evs cache =
     (\<forall>t l. cache t = Some l \<longrightarrow> length l \<le> 100 \<and> subseq (map url l) (requestUrlsOf t evs))"

text \<open>The array the listener works on: the tab's entries, or a fresh empty array.\<close>

definition entriesOf :: "tabMediaCache \<Rightarrow> int \<Rightarrow> mediaItem list" where
  "entriesOf cache t = (case cache t of None \<Rightarrow> [] | Some l \<Rightarrow> l)"

text \<open>Sample data: a tab whose cache is full, and the next media request in it.\<close>

definition sampleRequest :: "nat \<Rightarrow> details" where
  "sampleRequest i = \<lparr> tabId = 1, requestUrl = replicate i CHR ''v'' @ ''v.mp4'', now = i \<rparr>"

definition sampleEntries :: "mediaItem list" where
  "sampleEntries = map (\<lambda>i. networkItem (sampleRequest i)) [0..<100]"

definition nextRequest :: details where
  "nextRequest = \<lparr> tabId = 1, requestUrl = ''https://cdn.example.com/movie.MP4?token=1'', now = 100 \<rparr>"

text \<open>The scheme prefixes \<open>isProtectedUrl\<close> looks for.\<close>

definition protectedPrefixes :: "string list" where
  "protectedPrefixes = [''chrome://'', ''chrome-extension://'', ''edge://'', ''about:'', ''view-source:'']"

text \<open>
  Sample data: a browser in which tab 7 shows the extensions page and tab 8 a web page
  with one video element; every script injection succeeds and no request is answered.
\<close>

definition sampleBrowser :: host where
  "sampleBrowser =
     \<lparr> resolveUrl = (\<lambda>rel base. None),
       parseUrl = (\<lambda>u. None),
       httpGet = (\<lambda>k u. Rejected),
       httpHead = (\<lambda>u. Rejected),
       tabsGet = (\<lambda>t. if t = 7 then Some \<lparr> tabUrl = Some ''chrome://extensions/'' \<rparr>
                      else if t = 8 then Some \<lparr> tabUrl = Some ''https://example.com/'' \<rparr>
                      else None),
       executeScript = (\<lambda>t. True),
       extractDomMedia = (\<lambda>t. None) \<rparr>"

text \<open>
  Sample data: a server with three segments, a media playlist that lists them, a
  playlist with a line that is no URL, a playlist of five segment lines, and a media
  playlist of 1084 characters whose first segment URL carries a long token.
\<close>

definition newline :: string where
  "newline = [CHR 0x0A]"

definition abcPlaylist :: string where
  "abcPlaylist = ''#EXTM3U'' @ newline @ ''#EXT-X-TARGETDURATION:11'' @ newline
      @ ''#EXTINF:5.0,'' @ newline @ ''a.ts'' @ newline
      @ ''#EXTINF:4.5,'' @ newline @ ''b.ts'' @ newline
      @ ''#EXTINF:10.333,'' @ newline @ ''c.ts'' @ newline
      @ ''#EXT-X-ENDLIST'' @ newline"

definition cabPlaylist :: string where
  "cabPlaylist = ''#EXTM3U'' @ newline @ ''#EXT-X-TARGETDURATION:11'' @ newline
      @ ''#EXTINF:10.333,'' @ newline @ ''c.ts'' @ newline
      @ ''#EXTINF:5.0,'' @ newline @ ''a.ts'' @ newline
      @ ''#EXTINF:4.5,'' @ newline @ ''b.ts'' @ newline
      @ ''#EXT-X-ENDLIST'' @ newline"

definition brokenLinePlaylist :: string where
  "brokenLinePlaylist = ''#EXTM3U'' @ newline @ ''#EXT-X-TARGETDURATION:11'' @ newline
      @ ''a.ts'' @ newline @ ''http://'' @ newline @ ''b.ts'' @ newline"

definition onlyBrokenPlaylist :: string where
  "onlyBrokenPlaylist = ''#EXTM3U'' @ newline @ ''#EXT-X-TARGETDURATION:11'' @ newline
      @ ''http://'' @ newline"

definition fivePlaylist :: string where
  "fivePlaylist = ''#EXTM3U'' @ newline @ ''#EXT-X-TARGETDURATION:11'' @ newline
      @ ''a.ts'' @ newline @ ''b.ts'' @ newline @ ''c.ts'' @ newline
      @ ''a.ts'' @ newline @ ''b.ts'' @ newline"

definition longPlaylist :: string where
  "longPlaylist = ''#EXTM3U'' @ newline @ ''#EXT-X-TARGETDURATION:10'' @ newline
      @ ''#EXTINF:10.0,'' @ newline @ ''seg0.ts?token='' @ replicate 1000 CHR ''x'' @ newline
      @ ''#EXTINF:10.0,'' @ newline @ ''seg1.ts'' @ newline"

definition okResponse :: "string \<Rightarrow> byte list \<Rightarrow> fetchOutcome" where
  "okResponse t b = Response \<lparr> ok = True, body_text = t, array_buffer = b, content_length = None \<rparr>"

definition notFound :: fetchOutcome where
  "notFound = Response \<lparr> ok = False, body_text = [], array_buffer = [], content_length = None \<rparr>"

definition sampleCdn :: host where
  "sampleCdn =
     \<lparr> resolveUrl = (\<lambda>rel base. if rel = ''http://'' then None
                                 else Some (''https://cdn.example.com/v/'' @ rel)),
       parseUrl = (\<lambda>u. if str_startsWith u ''https://cdn.example.com''
                         then Some (''https://cdn.example.com'', drop 23 u) else None),
       httpGet = (\<lambda>k u.
          if u = ''https://cdn.example.com/v/abc.m3u8'' then okResponse abcPlaylist []
          else if u = ''https://cdn.example.com/v/cab.m3u8'' then okResponse cabPlaylist []
          else if u = ''https://cdn.example.com/v/broken.m3u8'' then okResponse brokenLinePlaylist []
          else if u = ''https://cdn.example.com/v/onlybroken.m3u8'' then okResponse onlyBrokenPlaylist []
          else if u = ''https://cdn.example.com/v/five.m3u8'' then okResponse fivePlaylist []
          else if u = ''https://cdn.example.com/v/long.m3u8'' then okResponse longPlaylist []
          else if u = ''https://cdn.example.com/v/a.ts'' then okResponse [] [0xA1, 0xA2]
          else if u = ''https://cdn.example.com/v/b.ts'' then okResponse [] [0xB1]
          else if u = ''https://cdn.example.com/v/c.ts'' then okResponse [] [0xC1, 0xC2, 0xC3]
          else notFound),
       httpHead = (\<lambda>u. Rejected),
       tabsGet = (\<lambda>t. None),
       executeScript = (\<lambda>t. False),
       extractDomMedia = (\<lambda>t. None) \<rparr>"

definition longItem :: mediaItem where
  "longItem = networkItem \<lparr> tabId = 1, requestUrl = ''https://cdn.example.com/v/long.m3u8'', now = 0 \<rparr>"

text \<open>
  Notions of the statements about the downloader: the segment references of a playlist
  as the specification reads them (the lines that are not blank and not comments,
  resolved against the playlist's URL, those that do not resolve left out); whether the
  request of iteration \<open>j\<close> is answered with \<open>ok\<close>, and the bytes it brings; what an
  iteration that reaches its \<open>fetch\<close> does; and the name of the saved file.
\<close>

definition segmentRefs :: "host \<Rightarrow> string \<Rightarrow> string list \<Rightarrow> string list" where
  "segmentRefs h currentUrl lines =
     List.map_filter (\<lambda>line. resolveUrl h (str_trim line) currentUrl) (filter isSegmentLine lines)"

definition segmentOk :: "host \<Rightarrow> nat \<Rightarrow> string list \<Rightarrow> nat \<Rightarrow> bool" where
  "segmentOk h c segmentUrls j =
     (case httpGet h (c + j) (segmentUrls ! j) of Rejected \<Rightarrow> False | Response r \<Rightarrow> ok r)"

definition segmentBytes :: "host \<Rightarrow> nat \<Rightarrow> string list \<Rightarrow> nat \<Rightarrow> byte list" where
  "segmentBytes h c segmentUrls j =
     (case httpGet h (c + j) (segmentUrls ! j) of Rejected \<Rightarrow> [] | Response r \<Rightarrow> array_buffer r)"

definition iteration :: "bool \<Rightarrow> string list \<Rightarrow> nat \<Rightarrow> event list" where
  "iteration onProgress segmentUrls j =
     (if onProgress then [Progress j (length segmentUrls)] else []) @ [Fetch (segmentUrls ! j)]"

definition savedName :: "string \<Rightarrow> string" where
  "savedName filename = (if str_endsWith filename ''.ts'' then filename else filename @ ''.ts'')"

text \<open>Sample data: the URLs on the sample server.\<close>

definition abcUrl :: string where
  "abcUrl = ''https://cdn.example.com/v/abc.m3u8''"

definition aUrl :: string where
  "aUrl = ''https://cdn.example.com/v/a.ts''"

definition bUrl :: string where
  "bUrl = ''https://cdn.example.com/v/b.ts''"

definition cUrl :: string where
  "cUrl = ''https://cdn.example.com/v/c.ts''"

definition cabUrl :: string where
  "cabUrl = ''https://cdn.example.com/v/cab.m3u8''"

definition brokenUrl :: string where
  "brokenUrl = ''https://cdn.example.com/v/broken.m3u8''"

definition onlyBrokenUrl :: string where
  "onlyBrokenUrl = ''https://cdn.example.com/v/onlybroken.m3u8''"

definition fiveUrl :: string where
  "fiveUrl = ''https://cdn.example.com/v/five.m3u8''"

text \<open>A signal that is aborted once two segments have been fetched.\<close>

definition abortedAfterTwo :: signal where
  "abortedAfterTwo = Some (\<lambda>i. 2 \<le> i)"



section \<open>Properties of the classifier\<close>

lemma str_includes_iff: "str_includes s t \<longleftrightarrow> (\<exists>p q. s = p @ t @ q)"
proof (induction s)
  case Nil
  then show ?case by auto
next
  case (Cons c cs)
  show ?case
  proof
    assume "str_includes (c # cs) t"
    then consider "str_startsWith (c # cs) t" | "str_includes cs t"
      by (auto split: if_splits)
    then show "\<exists>p q. c # cs = p @ t @ q"
    proof cases
      case 1
      then have "c # cs = [] @ t @ drop (length t) (c # cs)"
        unfolding str_startsWith_def by (metis append_Nil append_take_drop_id)
      then show ?thesis by blast
    next
      case 2
      then obtain p q where "cs = p @ t @ q" using Cons.IH by blast
      then have "c # cs = (c # p) @ t @ q" by simp
      then show ?thesis by blast
    qed
  next
    assume "\<exists>p q. c # cs = p @ t @ q"
    then obtain p q where pq: "c # cs = p @ t @ q" by blast
    show "str_includes (c # cs) t"
    proof (cases p)
      case Nil
      then have "str_startsWith (c # cs) t" using pq by (simp add: str_startsWith_def)
      then show ?thesis by simp
    next
      case (Cons a p')
      then have "cs = p' @ t @ q" using pq by simp
      then show ?thesis using Cons.IH by auto
    qed
  qed
qed

lemma matchAlternative_iff:
  "matchAlternative r e' \<longleftrightarrow>
     (\<exists>e post. r = e @ post \<and> map canonicalize e = map canonicalize e' \<and>
        (post = [] \<or> (\<exists>t. post = CHR ''?'' # t)))"
proof (induction r e' rule: matchAlternative.induct)
  case (1 r)
  then show ?case by (cases r) auto
next
  case (2 p ps)
  then show ?case by simp
next
  case (3 c cs p ps)
  show ?case
  proof
    assume "matchAlternative (c # cs) (p # ps)"
    then have c: "canonicalize c = canonicalize p" and "matchAlternative cs ps"
      by (auto split: if_splits)
    with 3 obtain e post where "cs = e @ post" "map canonicalize e = map canonicalize ps"
      "post = [] \<or> (\<exists>t. post = CHR ''?'' # t)" by blast
    with c have "c # cs = (c # e) @ post \<and> map canonicalize (c # e) = map canonicalize (p # ps) \<and>
        (post = [] \<or> (\<exists>t. post = CHR ''?'' # t))" by simp
    then show "\<exists>e post. c # cs = e @ post \<and> map canonicalize e = map canonicalize (p # ps) \<and>
        (post = [] \<or> (\<exists>t. post = CHR ''?'' # t))" by blast
  next
    assume "\<exists>e post. c # cs = e @ post \<and> map canonicalize e = map canonicalize (p # ps) \<and>
        (post = [] \<or> (\<exists>t. post = CHR ''?'' # t))"
    then obtain e post where e: "c # cs = e @ post"
      "map canonicalize e = map canonicalize (p # ps)"
      "post = [] \<or> (\<exists>t. post = CHR ''?'' # t)" by blast
    from e(2) obtain a e1 where e1: "e = a # e1" by (cases e) auto
    with e have "canonicalize c = canonicalize p" "cs = e1 @ post"
      "map canonicalize e1 = map canonicalize ps" by auto
    with e(3) 3 show "matchAlternative (c # cs) (p # ps)" by auto
  qed
qed

lemma matchHere_iff:
  "matchHere exts s \<longleftrightarrow>
     (\<exists>e post e'. s = CHR ''.'' # e @ post \<and> e' \<in> set exts \<and>
        map canonicalize e = map canonicalize e' \<and>
        (post = [] \<or> (\<exists>t. post = CHR ''?'' # t)))"
  by (cases s) (auto simp: matchHere_def list_ex_iff matchAlternative_iff)

lemma regexTest_iff: "regexTest exts u \<longleftrightarrow> hasExtension exts u"
proof (induction u)
  case Nil
  then show ?case by (simp add: matchHere_def hasExtension_def)
next
  case (Cons c cs)
  have "hasExtension exts (c # cs) \<longleftrightarrow> matchHere exts (c # cs) \<or> hasExtension exts cs"
  proof
    assume "hasExtension exts (c # cs)"
    then obtain pre e post e' where u: "c # cs = pre @ CHR ''.'' # e @ post"
      and rest: "e' \<in> set exts" "map canonicalize e = map canonicalize e'"
        "post = [] \<or> (\<exists>t. post = CHR ''?'' # t)"
      unfolding hasExtension_def by blast
    show "matchHere exts (c # cs) \<or> hasExtension exts cs"
    proof (cases pre)
      case Nil
      with u rest have "matchHere exts (c # cs)" unfolding matchHere_iff by auto
      then show ?thesis ..
    next
      case (Cons a pre')
      with u have "cs = pre' @ CHR ''.'' # e @ post" by simp
      with rest have "hasExtension exts cs" unfolding hasExtension_def by blast
      then show ?thesis ..
    qed
  next
    assume "matchHere exts (c # cs) \<or> hasExtension exts cs"
    then show "hasExtension exts (c # cs)"
    proof
      assume "matchHere exts (c # cs)"
      then obtain e post e' where "c # cs = [] @ CHR ''.'' # e @ post" "e' \<in> set exts"
        "map canonicalize e = map canonicalize e'" "post = [] \<or> (\<exists>t. post = CHR ''?'' # t)"
        unfolding matchHere_iff by auto
      then show ?thesis unfolding hasExtension_def by blast
    next
      assume "hasExtension exts cs"
      then obtain pre e post e' where "cs = pre @ CHR ''.'' # e @ post" "e' \<in> set exts"
        "map canonicalize e = map canonicalize e'" "post = [] \<or> (\<exists>t. post = CHR ''?'' # t)"
        unfolding hasExtension_def by blast
      then have "c # cs = (c # pre) @ CHR ''.'' # e @ post" by simp
      with \<open>e' \<in> set exts\<close> \<open>map canonicalize e = map canonicalize e'\<close>
        \<open>post = [] \<or> (\<exists>t. post = CHR ''?'' # t)\<close>
      show ?thesis unfolding hasExtension_def by blast
    qed
  qed
  with Cons.IH show ?case by simp
qed

text \<open>
  Claim C6. \<open>getMediaType\<close> is a function of the URL alone, defined on every string (no
  branch of it throws), and its value is decided by the four extension tests in the
  order video, audio, streaming, subtitle: the first test that finds a dot, an extension
  of its list in any letter case, and then the end of the string or a question mark,
  gives the kind; a URL that passes none of them is \<open>unknown\<close>.
\<close>

theorem getMediaType_priority:
  "getMediaType u =
     (if hasExtension VIDEO u then ''video''
      else if hasExtension AUDIO u then ''audio''
      else if hasExtension STREAMING u then ''streaming''
      else if hasExtension SUBTITLES u then ''subtitle''
      else ''unknown'')"
  by (simp add: getMediaType_def regexTest_iff)

text \<open>
  Claim C7. \<open>getHlsType\<close> answers \<open>master\<close> for every content in which the marker
  \<open>#EXT-X-STREAM-INF\<close> occurs, whether or not \<open>#EXT-X-TARGETDURATION\<close> occurs too;
  \<open>media\<close> when only \<open>#EXT-X-TARGETDURATION\<close> occurs; and \<open>null\<close> when neither does.
\<close>

theorem getHlsType_master_priority:
  "((\<exists>p q. content = p @ ''#EXT-X-STREAM-INF'' @ q) \<longrightarrow> getHlsType content = Some Master) \<and>
   (\<not> (\<exists>p q. content = p @ ''#EXT-X-STREAM-INF'' @ q) \<and>
      (\<exists>p q. content = p @ ''#EXT-X-TARGETDURATION'' @ q) \<longrightarrow> getHlsType content = Some Media) \<and>
   (\<not> (\<exists>p q. content = p @ ''#EXT-X-STREAM-INF'' @ q) \<and>
      \<not> (\<exists>p q. content = p @ ''#EXT-X-TARGETDURATION'' @ q) \<longrightarrow> getHlsType content = None)"
  unfolding getHlsType_def str_includes_iff by simp

theorem getHlsType_master_priority_witness:
  "(\<exists>p q. ''#EXTM3U #EXT-X-TARGETDURATION:6 #EXT-X-STREAM-INF:BANDWIDTH=1'' = p @ ''#EXT-X-STREAM-INF'' @ q) \<and>
   (\<exists>p q. ''#EXTM3U #EXT-X-TARGETDURATION:6 #EXT-X-STREAM-INF:BANDWIDTH=1'' = p @ ''#EXT-X-TARGETDURATION'' @ q) \<and>
   getHlsType ''#EXTM3U #EXT-X-TARGETDURATION:6 #EXT-X-STREAM-INF:BANDWIDTH=1'' = Some Master"
proof -
  let ?c = "''#EXTM3U #EXT-X-TARGETDURATION:6 #EXT-X-STREAM-INF:BANDWIDTH=1''"
  have a: "?c = ''#EXTM3U #EXT-X-TARGETDURATION:6 '' @ ''#EXT-X-STREAM-INF'' @ '':BANDWIDTH=1''"
    by simp
  have b: "?c = ''#EXTM3U '' @ ''#EXT-X-TARGETDURATION'' @ '':6 #EXT-X-STREAM-INF:BANDWIDTH=1''"
    by simp
  from a have ea: "\<exists>p q. ?c = p @ ''#EXT-X-STREAM-INF'' @ q" by blast
  from b have eb: "\<exists>p q. ?c = p @ ''#EXT-X-TARGETDURATION'' @ q" by blast
  from ea getHlsType_master_priority [of ?c] have "getHlsType ?c = Some Master" by blast
  with ea eb show ?thesis by blast
qed


section \<open>Properties of the merge step\<close>

lemma firstOccurrences_Nil: "firstOccurrences [] = []"
  by (simp add: firstOccurrences_def)

lemma map_filter_eq:
  "(\<And>i. i \<in> set is \<Longrightarrow> P i = Q i) \<Longrightarrow> (\<And>i. i \<in> set is \<Longrightarrow> Q i \<Longrightarrow> f i = g i) \<Longrightarrow>
   map f (filter P is) = map g (filter Q is)"
  by (induction "is") auto

lemma firstOccurrences_snoc:
  "firstOccurrences (xs @ [x]) =
     firstOccurrences xs @ (if url x \<in> url ` set xs then [] else [x])"
proof -
  have "map (\<lambda>i. (xs @ [x]) ! i)
          (filter (\<lambda>i. url ((xs @ [x]) ! i) \<notin> url ` set (take i (xs @ [x]))) [0..<length xs])
        = map (\<lambda>i. xs ! i) (filter (\<lambda>i. url (xs ! i) \<notin> url ` set (take i xs)) [0..<length xs])"
    by (rule map_filter_eq) (simp_all add: nth_append)
  then show ?thesis
    unfolding firstOccurrences_def by simp
qed

lemma foldl_addIfUnique_first:
  "foldl addIfUnique ({}, []) xs = (url ` set xs, firstOccurrences xs)"
proof (induction xs rule: rev_induct)
  case Nil
  then show ?case by (simp add: firstOccurrences_Nil)
next
  case (snoc x xs)
  then show ?case by (auto simp: firstOccurrences_snoc)
qed

lemma foldl_addIfUnique_seen:
  "url ` set ys \<subseteq> seen \<Longrightarrow> foldl addIfUnique (seen, acc) ys = (seen, acc)"
  by (induction ys) auto

lemma filterSeen_acc:
  "foldl addIfUnique (seen, acc) xs = (seen \<union> url ` set xs, acc @ filterSeen seen xs)"
proof (induction xs arbitrary: seen acc)
  case Nil
  then show ?case by simp
next
  case (Cons x xs)
  show ?case
  proof (cases "url x \<in> seen")
    case True
    then have "seen \<union> url ` set (x # xs) = seen \<union> url ` set xs" by auto
    with True Cons.IH [of seen acc] show ?thesis by simp
  next
    case False
    have "insert (url x) seen \<union> url ` set xs = seen \<union> url ` set (x # xs)" by auto
    with False Cons.IH [of "insert (url x) seen" "acc @ [x]"] show ?thesis by simp
  qed
qed

lemma deduplicateMedia_first: "deduplicateMedia l = firstOccurrences l"
proof -
  have "foldl addIfUnique ({}, []) l = ({} \<union> url ` set l, [] @ filterSeen {} l)"
    by (rule filterSeen_acc)
  then show ?thesis by (simp add: foldl_addIfUnique_first deduplicateMedia_def)
qed

lemma mergeAndDeduplicate_append:
  "mergeAndDeduplicate a b = firstOccurrences (a @ b)"
proof -
  have "foldl addIfUnique (foldl addIfUnique ({}, []) a) b = foldl addIfUnique ({}, []) (a @ b)"
    by simp
  then show ?thesis
    unfolding mergeAndDeduplicate_def by (simp only: foldl_addIfUnique_first snd_conv)
qed

lemma firstOccurrences_twice: "firstOccurrences (l @ l) = firstOccurrences l"
proof -
  have "foldl addIfUnique ({}, []) (l @ l) = foldl addIfUnique (url ` set l, firstOccurrences l) l"
    by (simp add: foldl_addIfUnique_first)
  also have "\<dots> = (url ` set l, firstOccurrences l)"
    by (rule foldl_addIfUnique_seen) simp
  finally have "foldl addIfUnique ({}, []) (l @ l) = (url ` set l, firstOccurrences l)" .
  moreover have "foldl addIfUnique ({}, []) (l @ l) = (url ` set (l @ l), firstOccurrences (l @ l))"
    by (rule foldl_addIfUnique_first)
  ultimately show ?thesis by (metis prod.inject)
qed

text \<open>
  Claim C9. Merging a list concatenated with itself gives the list that merging it once
  gives: for \<open>mergeAndDeduplicate\<close> with the list as both arguments, or with the
  doubled list as either argument, and for \<open>deduplicateMedia\<close> on the doubled list. In
  each case the result is the list of the entries whose URL occurs at no earlier
  position, in their order.
\<close>

theorem merge_idempotent:
  "mergeAndDeduplicate l l = mergeAndDeduplicate l [] \<and>
   mergeAndDeduplicate (l @ l) [] = mergeAndDeduplicate l [] \<and>
   mergeAndDeduplicate [] (l @ l) = mergeAndDeduplicate [] l \<and>
   deduplicateMedia (l @ l) = deduplicateMedia l \<and>
   mergeAndDeduplicate l [] = firstOccurrences l \<and>
   deduplicateMedia l = firstOccurrences l"
  by (simp add: mergeAndDeduplicate_append deduplicateMedia_first firstOccurrences_twice)

section \<open>Properties of the network cache\<close>

lemma enrichSize_url: "url (enrichSize h item) = url item"
  by (simp add: enrichSize_def split: option.splits)

lemma enrichHls_url: "url (enrichHls h item) = url item"
  by (simp add: enrichHls_def Let_def split: option.splits)

lemma enrichItem_url: "url (enrichItem h item) = url item"
  by (simp add: enrichItem_def enrichHls_url enrichSize_url)

lemma enrichStored_urls: "map url (enrichStored h seen l) = map url l"
  by (induction l arbitrary: seen) (simp_all add: enrichItem_url)

lemma enrichStored_length: "length (enrichStored h seen l) = length l"
  by (induction l arbitrary: seen) simp_all

lemma requestUrlsOf_snoc:
  "requestUrlsOf t (evs @ [e]) =
     requestUrlsOf t evs @ (case e of BeforeRequest d \<Rightarrow> if tabId d = t then [requestUrl d] else [] | _ \<Rightarrow> [])"
  by (induction t evs rule: requestUrlsOf.induct) (auto split: cacheEvent.splits)

lemma onBeforeRequest_other:
  "t \<noteq> tabId d \<Longrightarrow> fst (onBeforeRequest cache d) t = cache t"
  by (simp add: onBeforeRequest_def Let_def)

lemma subseq_snoc_right: "subseq xs ys \<Longrightarrow> subseq xs (ys @ zs)"
  by (rule subseq_rev_drop_many)

lemma subseq_snoc_both: "subseq xs ys \<Longrightarrow> subseq (xs @ [x]) (ys @ [x])"
  by (simp add: list_emb_append_mono)

lemma subseq_tl: "subseq xs ys \<Longrightarrow> subseq (tl xs) ys"
  by (cases xs) (auto dest: subseq_Cons')

lemma onBeforeRequest_same:
  "fst (onBeforeRequest cache d) (tabId d) = Some l' \<Longrightarrow>
     cache (tabId d) = Some l' \<or> l' = entriesOf cache (tabId d) \<or>
     l' = entriesOf cache (tabId d) @ [networkItem d] \<and> length (entriesOf cache (tabId d)) < 100 \<or>
     l' = tl (entriesOf cache (tabId d) @ [networkItem d])"
  by (auto simp: onBeforeRequest_def Let_def entriesOf_def split: if_splits option.splits)

lemma cacheInv_entriesOf:
  "cacheInv evs cache \<Longrightarrow>
     length (entriesOf cache t) \<le> 100 \<and> subseq (map url (entriesOf cache t)) (requestUrlsOf t evs)"
  by (auto simp: cacheInv_def entriesOf_def split: option.splits)

lemma cacheInv_onBeforeRequest:
  assumes inv: "cacheInv evs cache"
  shows "cacheInv (evs @ [BeforeRequest d]) (fst (onBeforeRequest cache d))"
  unfolding cacheInv_def
proof (intro allI impI)
  fix t l'
  assume l': "fst (onBeforeRequest cache d) t = Some l'"
  show "length l' \<le> 100 \<and> subseq (map url l') (requestUrlsOf t (evs @ [BeforeRequest d]))"
  proof (cases "t = tabId d")
    case False
    with l' have "cache t = Some l'" by (simp add: onBeforeRequest_other)
    with inv have "length l' \<le> 100 \<and> subseq (map url l') (requestUrlsOf t evs)"
      by (simp add: cacheInv_def)
    with False show ?thesis by (simp add: requestUrlsOf_snoc)
  next
    case True
    let ?es = "entriesOf cache (tabId d)"
    let ?rs = "requestUrlsOf (tabId d) evs"
    have rs: "requestUrlsOf t (evs @ [BeforeRequest d]) = ?rs @ [requestUrl d]"
      using True by (simp add: requestUrlsOf_snoc)
    from inv have es: "length ?es \<le> 100" "subseq (map url ?es) ?rs"
      using cacheInv_entriesOf by blast+
    have u: "url (networkItem d) = requestUrl d" by (simp add: networkItem_def)
    from l' True onBeforeRequest_same [of cache d l']
    consider "cache (tabId d) = Some l'" | "l' = ?es"
      | "l' = ?es @ [networkItem d]" "length ?es < 100"
      | "l' = tl (?es @ [networkItem d])" by blast
    then show ?thesis
    proof cases
      case 1
      with inv have "length l' \<le> 100 \<and> subseq (map url l') ?rs" by (simp add: cacheInv_def)
      then show ?thesis unfolding rs by (simp add: subseq_snoc_right)
    next
      case 2
      with es show ?thesis unfolding rs by (simp add: subseq_snoc_right)
    next
      case 3
      with es u show ?thesis unfolding rs by (simp add: subseq_snoc_both)
    next
      case 4
      have "subseq (map url (?es @ [networkItem d])) (?rs @ [requestUrl d])"
        using es u by (simp add: subseq_snoc_both)
      then have "subseq (tl (map url (?es @ [networkItem d]))) (?rs @ [requestUrl d])"
        by (rule subseq_tl)
      then have "subseq (map url l') (?rs @ [requestUrl d])"
        using 4 by (simp add: map_tl)
      moreover have "length l' \<le> 100" using 4 es by simp
      ultimately show ?thesis unfolding rs by simp
    qed
  qed
qed

lemma cacheInv_onRemoved:
  "cacheInv evs cache \<Longrightarrow> cacheInv (evs @ [Removed t]) (onRemoved cache t)"
  by (auto simp: cacheInv_def onRemoved_def requestUrlsOf_snoc)

lemma scanPage_cache:
  "fst (scanPage h cache msg s) t = Some l' \<Longrightarrow>
     \<exists>l. cache t = Some l \<and> length l' = length l \<and> map url l' = map url l"
  by (auto simp: scanPage_def Let_def enrichStored_length enrichStored_urls
      split: if_splits option.splits)

lemma cacheInv_scanPage:
  "cacheInv evs cache \<Longrightarrow> cacheInv (evs @ [Scan h msg s]) (fst (scanPage h cache msg s))"
  unfolding cacheInv_def
  by (auto simp: requestUrlsOf_snoc dest!: scanPage_cache) 

lemma cacheAfter_snoc: "cacheAfter (evs @ [e]) = cacheStep (cacheAfter evs) e"
  by (simp add: cacheAfter_def)

lemma cacheInv_cacheAfter: "cacheInv evs (cacheAfter evs)"
proof (induction evs rule: rev_induct)
  case Nil
  then show ?case by (simp add: cacheInv_def cacheAfter_def)
next
  case (snoc e evs)
  then show ?case
    by (cases e)
      (simp_all add: cacheAfter_snoc cacheInv_onBeforeRequest cacheInv_onRemoved cacheInv_scanPage)
qed

lemma onBeforeRequest_evicts:
  assumes "cache (tabId d) = Some l" "100 \<le> length l" "0 \<le> tabId d"
    "\<not> str_startsWith (requestUrl d) ''blob:''" "isMediaUrl (requestUrl d)"
    "requestUrl d \<notin> url ` set l"
  shows "fst (onBeforeRequest cache d) (tabId d) = Some (tl l @ [networkItem d])"
proof -
  from assms(2) have "l \<noteq> []" by auto
  then have "tl (l @ [networkItem d]) = tl l @ [networkItem d]" by simp
  moreover have "\<not> list_ex (\<lambda>item. url item = requestUrl d) l"
    using assms(6) by (force simp: list_ex_iff)
  ultimately show ?thesis
    using assms by (simp add: onBeforeRequest_def Let_def)
qed

text \<open>
  Claim C4. After any sequence of requests, tab removals and scans, the cache of every
  tab holds at most 100 entries, and they stand in the order in which their URLs were
  requested. When the listener appends to a tab that already holds 100 entries, the
  entry it drops is the first of the array, which is the oldest, and the others keep
  their order in front of the new one.
\<close>

theorem cache_bounded_fifo:
  "(cacheAfter evs t = Some l \<longrightarrow>
      length l \<le> 100 \<and> subseq (map url l) (requestUrlsOf t evs)) \<and>
   (cache (tabId d) = Some es \<and> 100 \<le> length es \<and> 0 \<le> tabId d \<and>
      \<not> str_startsWith (requestUrl d) ''blob:'' \<and> isMediaUrl (requestUrl d) \<and>
      requestUrl d \<notin> url ` set es \<longrightarrow>
      fst (onBeforeRequest cache d) (tabId d) = Some (tl es @ [networkItem d]))"
proof -
  have "length l \<le> 100 \<and> subseq (map url l) (requestUrlsOf t evs)"
    if "cacheAfter evs t = Some l"
    using that cacheInv_cacheAfter [of evs] by (simp add: cacheInv_def)
  moreover have "fst (onBeforeRequest cache d) (tabId d) = Some (tl es @ [networkItem d])"
    if "cache (tabId d) = Some es \<and> 100 \<le> length es \<and> 0 \<le> tabId d \<and>
      \<not> str_startsWith (requestUrl d) ''blob:'' \<and> isMediaUrl (requestUrl d) \<and>
      requestUrl d \<notin> url ` set es"
    using that by (simp add: onBeforeRequest_evicts)
  ultimately show ?thesis by blast
qed

lemma sample_two:
  "cacheAfter [BeforeRequest (sampleRequest 0), BeforeRequest (sampleRequest 1),
               BeforeRequest (sampleRequest 0)] 1
     = Some [networkItem (sampleRequest 0), networkItem (sampleRequest 1)]"
  by code_simp

lemma next_media: "isMediaUrl (requestUrl nextRequest)"
  by code_simp

lemma next_fresh: "requestUrl nextRequest \<notin> url ` set sampleEntries"
  by (auto simp: nextRequest_def sampleEntries_def networkItem_def sampleRequest_def)

lemma next_not_blob: "\<not> str_startsWith (requestUrl nextRequest) ''blob:''"
  by (simp add: nextRequest_def str_startsWith_def)

theorem cache_bounded_fifo_witness:
  "cacheAfter [BeforeRequest (sampleRequest 0), BeforeRequest (sampleRequest 1),
               BeforeRequest (sampleRequest 0)] 1
     = Some [networkItem (sampleRequest 0), networkItem (sampleRequest 1)] \<and>
   length [networkItem (sampleRequest 0), networkItem (sampleRequest 1)] \<le> 100 \<and>
   subseq (map url [networkItem (sampleRequest 0), networkItem (sampleRequest 1)])
     (requestUrlsOf 1 [BeforeRequest (sampleRequest 0), BeforeRequest (sampleRequest 1),
               BeforeRequest (sampleRequest 0)]) \<and>
   [1 \<mapsto> sampleEntries] (tabId nextRequest) = Some sampleEntries \<and>
   100 \<le> length sampleEntries \<and> 0 \<le> tabId nextRequest \<and>
   \<not> str_startsWith (requestUrl nextRequest) ''blob:'' \<and>
   isMediaUrl (requestUrl nextRequest) \<and>
   requestUrl nextRequest \<notin> url ` set sampleEntries \<and>
   fst (onBeforeRequest [1 \<mapsto> sampleEntries] nextRequest) (tabId nextRequest)
     = Some (tl sampleEntries @ [networkItem nextRequest])"
proof -
  have a: "[1 \<mapsto> sampleEntries] (tabId nextRequest) = Some sampleEntries"
    by (simp add: nextRequest_def)
  have b: "100 \<le> length sampleEntries" by (simp add: sampleEntries_def)
  have c: "0 \<le> tabId nextRequest" by (simp add: nextRequest_def)
  note t = cache_bounded_fifo [of
      "[BeforeRequest (sampleRequest 0), BeforeRequest (sampleRequest 1), BeforeRequest (sampleRequest 0)]"
      1 "[networkItem (sampleRequest 0), networkItem (sampleRequest 1)]"
      "[1 \<mapsto> sampleEntries]" nextRequest sampleEntries]
  from t sample_two a b c next_not_blob next_media next_fresh show ?thesis by blast
qed

section \<open>Properties of the scan handler\<close>

lemma str_startsWith_append: "str_startsWith (p @ rest) p"
  by (simp add: str_startsWith_def)

lemma isProtectedUrl_prefix:
  "p \<in> set protectedPrefixes \<Longrightarrow> isProtectedUrl (Some (p @ rest))"
  unfolding isProtectedUrl_def protectedPrefixes_def
  using str_startsWith_append [of _ rest] by auto

text \<open>
  Claim C5. When the tab of a scan request shows a URL that begins with one of the
  protected scheme prefixes, the handler answers with the error for protected pages
  after the tab lookup and does nothing else: it starts no script injection, does not
  read the cache (its answer is the same for every cache) and leaves the cache as it
  was.
\<close>

theorem scanPage_protected:
  "action msg = ''scan_page'' \<and> scanTabId msg senderTabId = Some t \<and> t \<noteq> 0 \<and>
   tabsGet h t = Some tb \<and> tabUrl tb = Some (p @ rest) \<and> p \<in> set protectedPrefixes
   \<longrightarrow>
   scanPage h cache msg senderTabId =
     (cache, [TabsGet t, SendResponse (ScanError
        ''Extension cannot scan protected browser pages (like chrome:// URLs).'')]) \<and>
   ExecuteScript t' \<notin> set (snd (scanPage h cache msg senderTabId)) \<and>
   ExtractDomMedia t' \<notin> set (snd (scanPage h cache msg senderTabId)) \<and>
   CacheGet t' \<notin> set (snd (scanPage h cache msg senderTabId))"
proof
  assume a: "action msg = ''scan_page'' \<and> scanTabId msg senderTabId = Some t \<and> t \<noteq> 0 \<and>
   tabsGet h t = Some tb \<and> tabUrl tb = Some (p @ rest) \<and> p \<in> set protectedPrefixes"
  then have "isProtectedUrl (tabUrl tb)" by (simp add: isProtectedUrl_prefix)
  with a have "scanPage h cache msg senderTabId =
     (cache, [TabsGet t, SendResponse (ScanError
        ''Extension cannot scan protected browser pages (like chrome:// URLs).'')])"
    by (simp add: scanPage_def)
  then show "scanPage h cache msg senderTabId =
     (cache, [TabsGet t, SendResponse (ScanError
        ''Extension cannot scan protected browser pages (like chrome:// URLs).'')]) \<and>
   ExecuteScript t' \<notin> set (snd (scanPage h cache msg senderTabId)) \<and>
   ExtractDomMedia t' \<notin> set (snd (scanPage h cache msg senderTabId)) \<and>
   CacheGet t' \<notin> set (snd (scanPage h cache msg senderTabId))"
    by simp
qed

text \<open>For contrast, the scan of the web page in tab 8 injects and reads the cache.\<close>

lemma sample_scan_unprotected:
  "snd (scanPage sampleBrowser [8 \<mapsto> [networkItem (sampleRequest 0)]]
          \<lparr> action = ''scan_page'', msgTabId = Some 8 \<rparr> None)
     = [TabsGet 8, ExecuteScript 8, ExtractDomMedia 8, CacheGet 8,
        SendResponse (ScanResults [networkItem (sampleRequest 0)])]"
  by code_simp

theorem scanPage_protected_witness:
  "action \<lparr> action = ''scan_page'', msgTabId = Some 7 \<rparr> = ''scan_page'' \<and>
   scanTabId \<lparr> action = ''scan_page'', msgTabId = Some 7 \<rparr> None = Some 7 \<and> (7 :: int) \<noteq> 0 \<and>
   tabsGet sampleBrowser 7 = Some \<lparr> tabUrl = Some ''chrome://extensions/'' \<rparr> \<and>
   tabUrl \<lparr> tabUrl = Some ''chrome://extensions/'' \<rparr> = Some (''chrome://'' @ ''extensions/'') \<and>
   ''chrome://'' \<in> set protectedPrefixes \<and>
   scanPage sampleBrowser [7 \<mapsto> sampleEntries] \<lparr> action = ''scan_page'', msgTabId = Some 7 \<rparr> None =
     ([7 \<mapsto> sampleEntries], [TabsGet 7, SendResponse (ScanError
        ''Extension cannot scan protected browser pages (like chrome:// URLs).'')])"
proof -
  let ?msg = "\<lparr> action = ''scan_page'', msgTabId = Some 7 \<rparr>"
  let ?tb = "\<lparr> tabUrl = Some ''chrome://extensions/'' \<rparr>"
  have a: "action ?msg = ''scan_page''" by simp
  have b: "scanTabId ?msg None = Some 7" by (simp add: scanTabId_def)
  have c: "tabsGet sampleBrowser 7 = Some ?tb" by (simp add: sampleBrowser_def)
  have d: "tabUrl ?tb = Some (''chrome://'' @ ''extensions/'')" by simp
  have e: "''chrome://'' \<in> set protectedPrefixes" by (simp add: protectedPrefixes_def)
  from scanPage_protected [of ?msg None 7 sampleBrowser ?tb "''chrome://''" "''extensions/''"
      "[7 \<mapsto> sampleEntries]" 7] a b c d e
  show ?thesis by simp
qed

section \<open>Properties of enrichment\<close>

lemma str_split_line:
  "sep \<notin> set p \<Longrightarrow> str_split sep (p @ sep # rest) = p # str_split sep rest"
proof (induction p)
  case Nil
  then show ?case by simp
next
  case (Cons c p)
  then show ?case by (cases "str_split sep rest") auto
qed

lemma str_split_last: "sep \<notin> set p \<Longrightarrow> str_split sep p = [p]"
  by (induction p) auto

lemma str_split_not_Nil: "str_split sep s \<noteq> []"
  by (induction s) (auto split: list.splits)

text \<open>The example of the specification: the three durations add up to 19.833.\<close>

lemma abc_duration: "calculateHlsDuration abcPlaylist = Some (19833 / 1000)"
  by code_simp



lemma str_includes_skip:
  "a \<notin> set p \<Longrightarrow> str_includes (p @ rest) (a # t) = str_includes rest (a # t)"
  by (induction p) (auto simp: str_startsWith_def)

lemma str_includes_none: "a \<notin> set p \<Longrightarrow> \<not> str_includes p (a # t)"
  using str_includes_skip [of a p "[]" t] by simp

text \<open>The lines of the long playlist, and of its first 1024 characters.\<close>

lemma longPlaylist_lines:
  "str_split CHR 0x0A longPlaylist =
     [''#EXTM3U'', ''#EXT-X-TARGETDURATION:10'', ''#EXTINF:10.0,'',
      ''seg0.ts?token='' @ replicate 1000 CHR ''x'', ''#EXTINF:10.0,'', ''seg1.ts'', []]"
proof -
  have e: "longPlaylist =
      ''#EXTM3U'' @ CHR 0x0A # ''#EXT-X-TARGETDURATION:10'' @ CHR 0x0A # ''#EXTINF:10.0,'' @ CHR 0x0A #
      (''seg0.ts?token='' @ replicate 1000 CHR ''x'') @ CHR 0x0A # ''#EXTINF:10.0,'' @ CHR 0x0A #
      ''seg1.ts'' @ CHR 0x0A # []"
    by (simp add: longPlaylist_def newline_def)
  have a1: "str_split CHR 0x0A (''#EXTM3U'' @ CHR 0x0A # X) = ''#EXTM3U'' # str_split CHR 0x0A X" for X
    by (rule str_split_line) simp
  have a2: "str_split CHR 0x0A (''#EXT-X-TARGETDURATION:10'' @ CHR 0x0A # X)
              = ''#EXT-X-TARGETDURATION:10'' # str_split CHR 0x0A X" for X
    by (rule str_split_line) simp
  have a3: "str_split CHR 0x0A (''#EXTINF:10.0,'' @ CHR 0x0A # X)
              = ''#EXTINF:10.0,'' # str_split CHR 0x0A X" for X
    by (rule str_split_line) simp
  have a4: "str_split CHR 0x0A ((''seg0.ts?token='' @ replicate 1000 CHR ''x'') @ CHR 0x0A # X)
              = (''seg0.ts?token='' @ replicate 1000 CHR ''x'') # str_split CHR 0x0A X" for X
    by (rule str_split_line) simp
  have a5: "str_split CHR 0x0A (''seg1.ts'' @ CHR 0x0A # X) = ''seg1.ts'' # str_split CHR 0x0A X" for X
    by (rule str_split_line) simp
  show ?thesis
    unfolding e a1 a2 a3 a4 a5 by simp
qed

lemma longPlaylist_prefix:
  "str_substring0 1024 longPlaylist =
      ''#EXTM3U'' @ CHR 0x0A # ''#EXT-X-TARGETDURATION:10'' @ CHR 0x0A # ''#EXTINF:10.0,'' @ CHR 0x0A #
      (''seg0.ts?token='' @ replicate 963 CHR ''x'')"
  by (simp add: str_substring0_def longPlaylist_def newline_def)

lemma longPlaylist_prefix_lines:
  "str_split CHR 0x0A (str_substring0 1024 longPlaylist) =
     [''#EXTM3U'', ''#EXT-X-TARGETDURATION:10'', ''#EXTINF:10.0,'',
      ''seg0.ts?token='' @ replicate 963 CHR ''x'']"
proof -
  have a1: "str_split CHR 0x0A (''#EXTM3U'' @ CHR 0x0A # X) = ''#EXTM3U'' # str_split CHR 0x0A X" for X
    by (rule str_split_line) simp
  have a2: "str_split CHR 0x0A (''#EXT-X-TARGETDURATION:10'' @ CHR 0x0A # X)
              = ''#EXT-X-TARGETDURATION:10'' # str_split CHR 0x0A X" for X
    by (rule str_split_line) simp
  have a3: "str_split CHR 0x0A (''#EXTINF:10.0,'' @ CHR 0x0A # X)
              = ''#EXTINF:10.0,'' # str_split CHR 0x0A X" for X
    by (rule str_split_line) simp
  have a4: "str_split CHR 0x0A (''seg0.ts?token='' @ replicate 963 CHR ''x'')
              = [''seg0.ts?token='' @ replicate 963 CHR ''x'']"
    by (rule str_split_last) simp
  show ?thesis
    unfolding longPlaylist_prefix a1 a2 a3 a4 by simp
qed

lemma extinf_10: "matchExtinf ''#EXTINF:10.0,'' = Some ''10.0''"
  by code_simp

lemma parseFloat_10: "parseFloat ''10.0'' = Some 10"
  by code_simp

lemma longPlaylist_duration: "calculateHlsDuration longPlaylist = Some 20"
  unfolding calculateHlsDuration_def longPlaylist_lines
  by (simp add: extinf_10 parseFloat_10 num_add_def str_startsWith_def del: matchExtinf.simps)

lemma longPlaylist_prefix_duration:
  "calculateHlsDuration (str_substring0 1024 longPlaylist) = Some 10"
  unfolding calculateHlsDuration_def longPlaylist_prefix_lines
  by (simp add: extinf_10 parseFloat_10 num_add_def str_startsWith_def del: matchExtinf.simps)

lemma longPlaylist_prefix_type: "getHlsType (str_substring0 1024 longPlaylist) = Some Media"
proof -
  have x: "\<not> str_includes (replicate 963 CHR ''x'') (CHR ''#'' # t)" for t
    by (rule str_includes_none) simp
  show ?thesis
    unfolding getHlsType_def longPlaylist_prefix
    by (simp add: str_startsWith_def x)
qed

lemma longItem_fields:
  "url longItem = ''https://cdn.example.com/v/long.m3u8''" "mediaType longItem = ''streaming''"
  by (simp add: longItem_def networkItem_def, code_simp)

lemma longItem_m3u8: "str_includes ''https://cdn.example.com/v/long.m3u8'' ''.m3u8''"
  by code_simp

lemma longItem_content:
  "fetchHlsContent sampleCdn 0 ''https://cdn.example.com/v/long.m3u8''
     = Some (str_substring0 1024 longPlaylist)"
  by (simp add: fetchHlsContent_def sampleCdn_def okResponse_def)

lemma longItem_suggested:
  "suggestMasterUrl sampleCdn ''https://cdn.example.com/v/long.m3u8''
     = Some ''https://cdn.example.com/v/master.m3u8''"
  by code_simp

text \<open>
  Claim C2. The item of the sample server's long playlist, a media playlist of two
  segments of 10 seconds each, is enriched from the first 1024 characters of the
  playlist, which end inside the first segment's URL: it is classified as a media
  playlist and its duration is set to 10, while the durations the playlist declares add
  up to 20.
\<close>

theorem enrich_long_playlist:
  "hlsType (enrichItem sampleCdn longItem) = Some Media \<and>
   duration (enrichItem sampleCdn longItem) = Some 10 \<and>
   calculateHlsDuration longPlaylist = Some 20"
proof -
  have ne: "str_substring0 1024 longPlaylist \<noteq> []"
    by (simp add: longPlaylist_prefix)
  have s: "enrichSize sampleCdn longItem = longItem"
    by (simp add: enrichSize_def longItem_fields)
  have "enrichItem sampleCdn longItem =
          longItem\<lparr> hlsType := Some Media, duration := Some 10,
                     suggestedMaster := Some ''https://cdn.example.com/v/master.m3u8'' \<rparr>"
    unfolding enrichItem_def s enrichHls_def
    by (simp add: longItem_fields longItem_m3u8 longItem_content ne longPlaylist_prefix_type
        hlsDuration_def longPlaylist_prefix_duration num_positive_def longItem_suggested Let_def
        del: str_includes.simps)
  then show ?thesis by (simp add: longPlaylist_duration)
qed

section \<open>Properties of the downloader\<close>

lemma extractSegments_refs:
  "fst (extractSegments h cur lines) = segmentRefs h cur lines"
  by (induction lines)
    (auto simp: segmentRefs_def isSegmentLine_def List.map_filter_simps split: prod.splits option.splits)

lemma extractSegments_logs:
  "fetchesOf (snd (extractSegments h cur lines)) = [] \<and>
   progressOf (snd (extractSegments h cur lines)) = [] \<and>
   payloadsOf (snd (extractSegments h cur lines)) = []"
  by (induction lines)
    (auto simp: fetchesOf_def progressOf_def payloadsOf_def split: prod.splits option.splits)

declare fetchSegments.simps [simp del]

lemma fetchSegments_done:
  "\<not> i < length us \<Longrightarrow> fetchSegments h sig p us c i acc = ([], Inr acc)"
  by (subst fetchSegments.simps) simp

lemma fetchSegments_aborted:
  "i < length us \<Longrightarrow> aborted sig i \<Longrightarrow> fetchSegments h sig p us c i acc = ([], Inl DownloadAborted)"
  by (subst fetchSegments.simps) simp

lemma fetchSegments_failed:
  "i < length us \<Longrightarrow> \<not> aborted sig i \<Longrightarrow> \<not> segmentOk h c us i \<Longrightarrow>
   \<exists>e. fetchSegments h sig p us c i acc = (iteration p us i, Inl e) \<and>
       (e = HostException \<or> e = FailedToFetchSegment i)"
  by (subst fetchSegments.simps)
    (auto simp: segmentOk_def iteration_def Let_def split: fetchOutcome.splits)

lemma fetchSegments_next:
  "i < length us \<Longrightarrow> \<not> aborted sig i \<Longrightarrow> segmentOk h c us i \<Longrightarrow>
   fetchSegments h sig p us c i acc =
     (iteration p us i @ fst (fetchSegments h sig p us c (Suc i) (acc @ [segmentBytes h c us i])),
      snd (fetchSegments h sig p us c (Suc i) (acc @ [segmentBytes h c us i])))"
  by (subst fetchSegments.simps)
    (auto simp: segmentOk_def segmentBytes_def iteration_def Let_def
      split: fetchOutcome.splits prod.splits)

text \<open>
  As long as the signal is not aborted and the requests are answered with \<open>ok\<close>, the
  loop goes from iteration \<open>i\<close> to iteration \<open>k\<close>.
\<close>

lemma fetchSegments_upto:
  "i \<le> k \<Longrightarrow> k \<le> length us \<Longrightarrow>
   (\<And>j. i \<le> j \<Longrightarrow> j < k \<Longrightarrow> \<not> aborted sig j \<and> segmentOk h c us j) \<Longrightarrow>
   fetchSegments h sig p us c i acc =
     (concat (map (iteration p us) [i..<k])
        @ fst (fetchSegments h sig p us c k (acc @ map (segmentBytes h c us) [i..<k])),
      snd (fetchSegments h sig p us c k (acc @ map (segmentBytes h c us) [i..<k])))"
proof (induction "k - i" arbitrary: i acc)
  case 0
  then have "i = k" by simp
  then show ?case by simp
next
  case (Suc d)
  then have lt: "i < k" and d: "d = k - Suc i" by auto
  from Suc.prems lt have here: "i < length us" "\<not> aborted sig i" "segmentOk h c us i"
    by auto
  have later: "\<not> aborted sig j \<and> segmentOk h c us j" if "Suc i \<le> j" "j < k" for j
    using that Suc.prems(3) [of j] by simp
  from lt have upt: "[i..<k] = i # [Suc i..<k]" by (simp add: upt_conv_Cons)
  have ih: "fetchSegments h sig p us c (Suc i) (acc @ [segmentBytes h c us i]) =
     (concat (map (iteration p us) [Suc i..<k])
        @ fst (fetchSegments h sig p us c k
                 ((acc @ [segmentBytes h c us i]) @ map (segmentBytes h c us) [Suc i..<k])),
      snd (fetchSegments h sig p us c k
                 ((acc @ [segmentBytes h c us i]) @ map (segmentBytes h c us) [Suc i..<k])))"
    using Suc.hyps(1) [OF d _ Suc.prems(2) later] lt by simp
  show ?case
    unfolding fetchSegments_next [OF here] ih upt by simp
qed

lemma fetchesOf_append: "fetchesOf (a @ b) = fetchesOf a @ fetchesOf b"
  by (simp add: fetchesOf_def)

lemma progressOf_append: "progressOf (a @ b) = progressOf a @ progressOf b"
  by (simp add: progressOf_def)

lemma payloadsOf_append: "payloadsOf (a @ b) = payloadsOf a @ payloadsOf b"
  by (simp add: payloadsOf_def)

lemma fetchesOf_iterations:
  "k \<le> length us \<Longrightarrow> fetchesOf (concat (map (iteration p us) [i..<k])) = drop i (take k us)"
proof (induction k)
  case 0
  then show ?case by (simp add: fetchesOf_def)
next
  case (Suc k)
  show ?case
  proof (cases "i \<le> k")
    case True
    with Suc have "fetchesOf (concat (map (iteration p us) [i..<Suc k]))
        = drop i (take k us) @ [us ! k]"
      by (simp add: fetchesOf_append) (simp add: fetchesOf_def iteration_def)
    also have "\<dots> = drop i (take (Suc k) us)"
      using Suc.prems True by (simp add: take_Suc_conv_app_nth)
    finally show ?thesis .
  next
    case False
    then show ?thesis by (simp add: fetchesOf_def)
  qed
qed

lemma payloadsOf_iterations: "payloadsOf (concat (map (iteration p us) [i..<k])) = []"
  by (induction k) (auto simp: payloadsOf_def iteration_def)

lemma progressOf_iterations:
  "progressOf (concat (map (iteration True us) [i..<k])) = map (\<lambda>j. (j, length us)) [i..<k]"
  by (induction k) (auto simp: progressOf_def iteration_def)

text \<open>
  The three ways the loop ends: after all iterations; at the first iteration that finds
  the signal aborted; with the first request that is not answered with \<open>ok\<close>.
\<close>

lemma fetchSegments_shape:
  assumes "i \<le> length us"
  shows "\<exists>m. i \<le> m \<and> m \<le> length us \<and>
      (\<forall>j. i \<le> j \<and> j < m \<longrightarrow> \<not> aborted sig j \<and> segmentOk h c us j) \<and>
      (m = length us \<and>
         fetchSegments h sig p us c i acc =
           (concat (map (iteration p us) [i..<m]),
            Inr (acc @ map (segmentBytes h c us) [i..<m]))
       \<or> m < length us \<and> aborted sig m \<and>
         fetchSegments h sig p us c i acc =
           (concat (map (iteration p us) [i..<m]), Inl DownloadAborted)
       \<or> m < length us \<and> \<not> aborted sig m \<and> \<not> segmentOk h c us m \<and>
         (\<exists>e. fetchSegments h sig p us c i acc =
                (concat (map (iteration p us) [i..<m]) @ iteration p us m, Inl e) \<and>
              (e = HostException \<or> e = FailedToFetchSegment m)))"
proof -
  define stop where "stop j \<longleftrightarrow> i \<le> j \<and> (length us \<le> j \<or> aborted sig j \<or> \<not> segmentOk h c us j)" for j
  define m where "m = (LEAST j. stop j)"
  from assms have "stop (length us)" by (simp add: stop_def)
  then have sm: "stop m" and le: "m \<le> length us"
    unfolding m_def by (rule LeastI, rule Least_le)
  have before: "\<not> aborted sig j \<and> segmentOk h c us j" if "i \<le> j" "j < m" for j
  proof -
    from that(2) have "\<not> stop j" unfolding m_def by (rule not_less_Least)
    with that(1) show ?thesis by (auto simp: stop_def)
  qed
  from sm have im: "i \<le> m" by (simp add: stop_def)
  note split = fetchSegments_upto [OF im le before, of p acc]
  let ?acc = "acc @ map (segmentBytes h c us) [i..<m]"
  consider "m = length us" | "m < length us" "aborted sig m"
    | "m < length us" "\<not> aborted sig m" "\<not> segmentOk h c us m"
    using sm le by (cases "m = length us"; cases "aborted sig m") (auto simp: stop_def)
  then show ?thesis
  proof cases
    case 1
    then have "fetchSegments h sig p us c m ?acc = ([], Inr ?acc)"
      by (simp add: fetchSegments_done)
    with split 1 im le before show ?thesis by (intro exI [of _ m]) simp
  next
    case 2
    then have "fetchSegments h sig p us c m ?acc = ([], Inl DownloadAborted)"
      by (simp add: fetchSegments_aborted)
    with split 2 im le before show ?thesis by (intro exI [of _ m]) simp
  next
    case 3
    then obtain e where "fetchSegments h sig p us c m ?acc = (iteration p us m, Inl e)"
      "e = HostException \<or> e = FailedToFetchSegment m"
      using fetchSegments_failed [of m us sig h c p ?acc] by blast
    with split 3 im le before show ?thesis by (intro exI [of _ m]) simp
  qed
qed

lemma downloadHlsStream_unfold:
  assumes "fetchPlaylist h u = (t1, Inr (cur, text, c))"
    and "extractSegments h cur (str_split CHR 0x0A text) = (us, logs)"
  shows "downloadHlsStream h u f p sig =
     (if us = [] then (t1 @ logs @ [Console ''HLS Download Error:''], Inl NoSegmentsFoundInManifest)
      else case fetchSegments h sig p us c 0 [] of
             (t2, Inl e) \<Rightarrow> (t1 @ logs @ t2 @ [Console ''HLS Download Error:''], Inl e)
           | (t2, Inr segments) \<Rightarrow>
               (t1 @ logs @ t2 @ (if p then [Progress (length us) (length us)] else [])
                  @ [Download (savedName f) (concat segments)], Inr True))"
  using assms
  by (simp add: downloadHlsStream_def downloadBody_def savedName_def split: prod.splits sum.splits)

lemma download_shape:
  assumes pl: "fetchPlaylist h u = (t1, Inr (cur, text, c))"
    and ex: "extractSegments h cur (str_split CHR 0x0A text) = (us, logs)"
    and ne: "us \<noteq> []"
  shows "\<exists>m. m \<le> length us \<and>
      (\<forall>j. j < m \<longrightarrow> \<not> aborted sig j \<and> segmentOk h c us j) \<and>
      (m = length us \<and>
         downloadHlsStream h u f p sig =
           (t1 @ logs @ concat (map (iteration p us) [0..<m])
              @ (if p then [Progress (length us) (length us)] else [])
              @ [Download (savedName f) (concat (map (segmentBytes h c us) [0..<m]))],
            Inr True)
       \<or> m < length us \<and> aborted sig m \<and>
         downloadHlsStream h u f p sig =
           (t1 @ logs @ concat (map (iteration p us) [0..<m]) @ [Console ''HLS Download Error:''],
            Inl DownloadAborted)
       \<or> m < length us \<and> \<not> aborted sig m \<and> \<not> segmentOk h c us m \<and>
         (\<exists>e. downloadHlsStream h u f p sig =
                (t1 @ logs @ concat (map (iteration p us) [0..<m]) @ iteration p us m
                   @ [Console ''HLS Download Error:''], Inl e) \<and>
              (e = HostException \<or> e = FailedToFetchSegment m)))"
proof -
  from fetchSegments_shape [of 0 us sig h c p "[]"]
  obtain m where m: "m \<le> length us"
    "\<forall>j. j < m \<longrightarrow> \<not> aborted sig j \<and> segmentOk h c us j"
    "m = length us \<and>
         fetchSegments h sig p us c 0 [] =
           (concat (map (iteration p us) [0..<m]), Inr (map (segmentBytes h c us) [0..<m]))
       \<or> m < length us \<and> aborted sig m \<and>
         fetchSegments h sig p us c 0 [] =
           (concat (map (iteration p us) [0..<m]), Inl DownloadAborted)
       \<or> m < length us \<and> \<not> aborted sig m \<and> \<not> segmentOk h c us m \<and>
         (\<exists>e. fetchSegments h sig p us c 0 [] =
                (concat (map (iteration p us) [0..<m]) @ iteration p us m, Inl e) \<and>
              (e = HostException \<or> e = FailedToFetchSegment m))"
    by auto
  note unfold = downloadHlsStream_unfold [OF pl ex, of f p sig]
  from m(3) consider
      (finished) "m = length us" "fetchSegments h sig p us c 0 [] =
           (concat (map (iteration p us) [0..<m]), Inr (map (segmentBytes h c us) [0..<m]))"
    | (cancelled) "m < length us" "aborted sig m" "fetchSegments h sig p us c 0 [] =
           (concat (map (iteration p us) [0..<m]), Inl DownloadAborted)"
    | (failed) e where "m < length us" "\<not> aborted sig m" "\<not> segmentOk h c us m"
      "fetchSegments h sig p us c 0 [] =
                (concat (map (iteration p us) [0..<m]) @ iteration p us m, Inl e)"
      "e = HostException \<or> e = FailedToFetchSegment m"
    by blast
  then show ?thesis
  proof cases
    case finished
    with unfold ne m(1,2) show ?thesis by (intro exI [of _ m]) simp
  next
    case cancelled
    with unfold ne m(1,2) show ?thesis by (intro exI [of _ m]) simp
  next
    case failed
    with unfold ne m(1,2) show ?thesis by (intro exI [of _ m]) auto
  qed
qed
lemma fetchPlaylist_events:
  "fetchPlaylist h u = (t1, r) \<Longrightarrow> payloadsOf t1 = [] \<and> progressOf t1 = []"
  by (auto simp: fetchPlaylist_def payloadsOf_def progressOf_def
      split: fetchOutcome.splits if_splits option.splits)

lemma segments_all_ok:
  assumes pl: "fetchPlaylist h u = (t1, Inr (cur, text, c))"
    and refs: "segmentRefs h cur (str_split CHR 0x0A text) = us" and ne: "us \<noteq> []"
    and k: "k \<le> length us"
    and ok: "\<And>i. i < k \<Longrightarrow> \<not> aborted sig i \<and> segmentOk h c us i"
  shows "downloadHlsStream h u f p sig =
     (case fetchSegments h sig p us c k (map (segmentBytes h c us) [0..<k]) of
        (t2, Inl e) \<Rightarrow>
          (t1 @ snd (extractSegments h cur (str_split CHR 0x0A text))
             @ concat (map (iteration p us) [0..<k]) @ t2 @ [Console ''HLS Download Error:''], Inl e)
      | (t2, Inr segments) \<Rightarrow>
          (t1 @ snd (extractSegments h cur (str_split CHR 0x0A text))
             @ concat (map (iteration p us) [0..<k]) @ t2
             @ (if p then [Progress (length us) (length us)] else [])
             @ [Download (savedName f) (concat segments)], Inr True))"
proof -
  have ex: "extractSegments h cur (str_split CHR 0x0A text)
      = (us, snd (extractSegments h cur (str_split CHR 0x0A text)))"
    using refs extractSegments_refs [of h cur "str_split CHR 0x0A text"]
    by (simp add: prod_eq_iff)
  have "fetchSegments h sig p us c 0 [] =
     (concat (map (iteration p us) [0..<k])
        @ fst (fetchSegments h sig p us c k ([] @ map (segmentBytes h c us) [0..<k])),
      snd (fetchSegments h sig p us c k ([] @ map (segmentBytes h c us) [0..<k])))"
    by (rule fetchSegments_upto) (use k ok in auto)
  then show ?thesis
    unfolding downloadHlsStream_unfold [OF pl ex] using ne
    by (simp split: prod.splits sum.splits)
qed

text \<open>
  Claim C1. Let steps 1 and 2 end with a media playlist whose segment lines resolve, in
  file order, to the URLs \<open>us\<close>, and let the request for the \<open>i\<close>-th of them be answered
  with the bytes \<open>bs ! i\<close> while the signal is not aborted. Then the run succeeds, the
  segments are requested one after the other in the order of \<open>us\<close>, right after the
  requests for the playlist, and the one \<open>Blob\<close> that is saved holds the bytes
  \<open>bs ! 0\<close>, \<open>bs ! 1\<close>, ... in this order. The statement holds for every playlist, so
  for a playlist with the segment lines permuted it gives the blocks in the permuted
  order.
\<close>

theorem download_concatenates:
  assumes "fetchPlaylist h u = (t1, Inr (cur, text, c))"
    and "segmentRefs h cur (str_split CHR 0x0A text) = us" and "us \<noteq> []"
    and "length bs = length us"
    and "\<forall>i<length us. \<not> aborted sig i \<and>
           (\<exists>r. httpGet h (c + i) (us ! i) = Response r \<and> ok r \<and> array_buffer r = bs ! i)"
  shows "snd (downloadHlsStream h u f p sig) = Inr True \<and>
         fetchesOf (fst (downloadHlsStream h u f p sig)) = fetchesOf t1 @ us \<and>
         payloadsOf (fst (downloadHlsStream h u f p sig)) = [concat bs]"
proof -
  have ok: "\<not> aborted sig i \<and> segmentOk h c us i" if "i < length us" for i
    using assms(5) that by (auto simp: segmentOk_def)
  have "segmentBytes h c us i = bs ! i" if "i < length us" for i
    using assms(5) that by (auto simp: segmentBytes_def)
  then have "map (segmentBytes h c us) [0..<length us] = map (\<lambda>i. bs ! i) [0..<length bs]"
    using assms(4) by simp
  then have bytes: "map (segmentBytes h c us) [0..<length us] = bs"
    by (simp add: map_nth)
  have run: "downloadHlsStream h u f p sig =
      (t1 @ snd (extractSegments h cur (str_split CHR 0x0A text))
         @ concat (map (iteration p us) [0..<length us])
         @ (if p then [Progress (length us) (length us)] else [])
         @ [Download (savedName f) (concat bs)], Inr True)"
    using segments_all_ok [OF assms(1,2,3) order_refl, of sig f p] ok
    by (simp add: fetchSegments_done bytes)
  have "fetchesOf (fst (downloadHlsStream h u f p sig)) = fetchesOf t1 @ us"
    unfolding run
    by (simp add: fetchesOf_append extractSegments_logs fetchesOf_iterations)
      (simp add: fetchesOf_def)
  moreover have "payloadsOf (fst (downloadHlsStream h u f p sig)) = [concat bs]"
    unfolding run using fetchPlaylist_events [OF assms(1)]
    by (simp add: payloadsOf_append extractSegments_logs payloadsOf_iterations)
      (simp add: payloadsOf_def)
  ultimately show ?thesis by (simp add: run)
qed

lemma sample_abc_playlist:
  "fetchPlaylist sampleCdn abcUrl = ([Fetch abcUrl], Inr (abcUrl, abcPlaylist, 1))"
  by code_simp

lemma sample_abc_refs:
  "segmentRefs sampleCdn abcUrl (str_split CHR 0x0A abcPlaylist) = [aUrl, bUrl, cUrl]"
  by code_simp

lemma sample_abc_run:
  "downloadHlsStream sampleCdn abcUrl ''abc'' True None =
     ([Fetch abcUrl, Progress 0 3, Fetch aUrl, Progress 1 3, Fetch bUrl, Progress 2 3, Fetch cUrl,
       Progress 3 3, Download ''abc.ts'' [0xA1, 0xA2, 0xB1, 0xC1, 0xC2, 0xC3]], Inr True)"
  by code_simp

text \<open>The same segments listed in the order c, a, b give the blocks in that order.\<close>

lemma sample_cab_run:
  "downloadHlsStream sampleCdn cabUrl ''cab.ts'' True None =
     ([Fetch cabUrl, Progress 0 3, Fetch cUrl, Progress 1 3, Fetch aUrl, Progress 2 3, Fetch bUrl,
       Progress 3 3, Download ''cab.ts'' [0xC1, 0xC2, 0xC3, 0xA1, 0xA2, 0xB1]], Inr True)"
  by code_simp

theorem download_concatenates_witness:
  "fetchPlaylist sampleCdn abcUrl = ([Fetch abcUrl], Inr (abcUrl, abcPlaylist, 1)) \<and>
   segmentRefs sampleCdn abcUrl (str_split CHR 0x0A abcPlaylist) = [aUrl, bUrl, cUrl] \<and>
   snd (downloadHlsStream sampleCdn abcUrl ''abc'' True None) = Inr True \<and>
   fetchesOf (fst (downloadHlsStream sampleCdn abcUrl ''abc'' True None))
     = fetchesOf [Fetch abcUrl] @ [aUrl, bUrl, cUrl] \<and>
   payloadsOf (fst (downloadHlsStream sampleCdn abcUrl ''abc'' True None))
     = [concat [[0xA1, 0xA2], [0xB1], [0xC1, 0xC2, 0xC3]]]"
proof -
  have all: "\<forall>i<length [aUrl, bUrl, cUrl]. \<not> aborted None i \<and>
      (\<exists>r. httpGet sampleCdn (1 + i) ([aUrl, bUrl, cUrl] ! i) = Response r \<and> ok r \<and>
           array_buffer r = [[0xA1, 0xA2], [0xB1], [0xC1, 0xC2, 0xC3]] ! i)"
    by (auto simp: less_Suc_eq aborted_def sampleCdn_def okResponse_def aUrl_def bUrl_def cUrl_def)
  from download_concatenates [OF sample_abc_playlist sample_abc_refs _ _ all, of "''abc''" True]
    sample_abc_playlist sample_abc_refs
  show ?thesis by simp
qed



lemma sample_five_cancelled_run:
  "downloadHlsStream sampleCdn fiveUrl ''five'' True abortedAfterTwo =
     ([Fetch fiveUrl, Progress 0 5, Fetch aUrl, Progress 1 5, Fetch bUrl,
       Console ''HLS Download Error:''], Inl DownloadAborted)"
  by code_simp


lemma segmentRefs_append:
  "segmentRefs h cur (pre @ post) = segmentRefs h cur pre @ segmentRefs h cur post"
  by (simp add: segmentRefs_def List.map_filter_def)

lemma segmentRefs_unresolvable:
  "resolveUrl h (str_trim line) cur = None \<Longrightarrow> segmentRefs h cur [line] = []"
  by (simp add: segmentRefs_def List.map_filter_def)

text \<open>
  Claim C10. Let steps 1 and 2 end with a media playlist. The URLs step 3 collects are
  the segment references of the playlist that resolve, in file order; a segment line
  that does not resolve contributes nothing and the lines around it are kept. Such a
  line does not end the run: the run throws \<open>No segments found in manifest\<close> exactly
  when no line gives a URL; it succeeds whenever there is a collected URL, no iteration
  finds the signal aborted and every request for a collected URL is answered with
  \<open>ok\<close>; and any other error comes from the signal or from the request for a collected
  URL. When the run succeeds, it has requested the collected URLs in order after the
  playlist, and the saved \<open>Blob\<close> is the concatenation of the bytes these requests
  brought.
\<close>

theorem download_skips_unresolvable:
  assumes "fetchPlaylist h u = (t1, Inr (cur, text, c))"
  shows "fst (extractSegments h cur (str_split CHR 0x0A text))
           = segmentRefs h cur (str_split CHR 0x0A text) \<and>
         (resolveUrl h (str_trim line) cur = None \<longrightarrow>
            segmentRefs h cur (pre @ line # post) = segmentRefs h cur pre @ segmentRefs h cur post) \<and>
         (snd (downloadHlsStream h u f p sig) = Inl NoSegmentsFoundInManifest
            \<longleftrightarrow> segmentRefs h cur (str_split CHR 0x0A text) = []) \<and>
         (segmentRefs h cur (str_split CHR 0x0A text) \<noteq> [] \<and>
          (\<forall>i<length (segmentRefs h cur (str_split CHR 0x0A text)).
             \<not> aborted sig i \<and> segmentOk h c (segmentRefs h cur (str_split CHR 0x0A text)) i)
            \<longrightarrow> snd (downloadHlsStream h u f p sig) = Inr True) \<and>
         (\<forall>e. snd (downloadHlsStream h u f p sig) = Inl e \<longrightarrow>
            e = NoSegmentsFoundInManifest \<and> segmentRefs h cur (str_split CHR 0x0A text) = [] \<or>
            (\<exists>m<length (segmentRefs h cur (str_split CHR 0x0A text)).
               aborted sig m \<and> e = DownloadAborted \<or>
               \<not> aborted sig m \<and>
               \<not> segmentOk h c (segmentRefs h cur (str_split CHR 0x0A text)) m \<and>
               (e = HostException \<or> e = FailedToFetchSegment m))) \<and>
         (snd (downloadHlsStream h u f p sig) = Inr True \<longrightarrow>
            fetchesOf (fst (downloadHlsStream h u f p sig))
              = fetchesOf t1 @ segmentRefs h cur (str_split CHR 0x0A text) \<and>
            payloadsOf (fst (downloadHlsStream h u f p sig))
              = [concat (map (segmentBytes h c (segmentRefs h cur (str_split CHR 0x0A text)))
                           [0..<length (segmentRefs h cur (str_split CHR 0x0A text))])])"
proof -
  let ?lines = "str_split CHR 0x0A text"
  let ?us = "segmentRefs h cur ?lines"
  let ?logs = "snd (extractSegments h cur ?lines)"
  let ?run = "downloadHlsStream h u f p sig"
  have ex: "extractSegments h cur ?lines = (?us, ?logs)"
    using extractSegments_refs [of h cur ?lines] by (simp add: prod_eq_iff)
  have skip: "segmentRefs h cur (pre @ line # post) = segmentRefs h cur pre @ segmentRefs h cur post"
    if "resolveUrl h (str_trim line) cur = None"
    using segmentRefs_append [of h cur pre "[line] @ post"] segmentRefs_append [of h cur "[line]" post]
      segmentRefs_unresolvable [OF that] by simp
  have rest: "(snd ?run = Inl NoSegmentsFoundInManifest \<longleftrightarrow> ?us = []) \<and>
         (?us \<noteq> [] \<and> (\<forall>i<length ?us. \<not> aborted sig i \<and> segmentOk h c ?us i)
            \<longrightarrow> snd ?run = Inr True) \<and>
         (\<forall>e. snd ?run = Inl e \<longrightarrow>
            e = NoSegmentsFoundInManifest \<and> ?us = [] \<or>
            (\<exists>m<length ?us.
               aborted sig m \<and> e = DownloadAborted \<or>
               \<not> aborted sig m \<and> \<not> segmentOk h c ?us m \<and>
               (e = HostException \<or> e = FailedToFetchSegment m))) \<and>
         (snd ?run = Inr True \<longrightarrow>
            fetchesOf (fst ?run) = fetchesOf t1 @ ?us \<and>
            payloadsOf (fst ?run) = [concat (map (segmentBytes h c ?us) [0..<length ?us])])"
  proof (cases "?us = []")
    case True
    then show ?thesis
      using downloadHlsStream_unfold [OF assms ex, of f p sig] by simp
  next
    case False
    from download_shape [OF assms ex False, of sig f p]
    obtain m where m: "m \<le> length ?us"
      and cases: "m = length ?us \<and>
         ?run = (t1 @ ?logs @ concat (map (iteration p ?us) [0..<m])
              @ (if p then [Progress (length ?us) (length ?us)] else [])
              @ [Download (savedName f) (concat (map (segmentBytes h c ?us) [0..<m]))],
            Inr True)
       \<or> m < length ?us \<and> aborted sig m \<and>
         ?run = (t1 @ ?logs @ concat (map (iteration p ?us) [0..<m]) @ [Console ''HLS Download Error:''],
            Inl DownloadAborted)
       \<or> m < length ?us \<and> \<not> aborted sig m \<and> \<not> segmentOk h c ?us m \<and>
         (\<exists>e. ?run = (t1 @ ?logs @ concat (map (iteration p ?us) [0..<m]) @ iteration p ?us m
                   @ [Console ''HLS Download Error:''], Inl e) \<and>
              (e = HostException \<or> e = FailedToFetchSegment m))"
      by blast
    from cases consider
        (finished) "m = length ?us" "?run = (t1 @ ?logs @ concat (map (iteration p ?us) [0..<m])
              @ (if p then [Progress (length ?us) (length ?us)] else [])
              @ [Download (savedName f) (concat (map (segmentBytes h c ?us) [0..<m]))],
            Inr True)"
      | (cancelled) "m < length ?us" "aborted sig m" "snd ?run = Inl DownloadAborted"
      | (failed) e where "m < length ?us" "\<not> aborted sig m" "\<not> segmentOk h c ?us m"
          "snd ?run = Inl e" "e = HostException \<or> e = FailedToFetchSegment m"
      by (elim disjE conjE exE) auto
    then show ?thesis
    proof cases
      case finished
      have "fetchesOf (fst ?run) = fetchesOf t1 @ ?us"
        unfolding finished(2) using finished(1)
        by (simp add: fetchesOf_append extractSegments_logs fetchesOf_iterations)
          (simp add: fetchesOf_def)
      moreover have "payloadsOf (fst ?run) = [concat (map (segmentBytes h c ?us) [0..<length ?us])]"
        unfolding finished(2) using finished(1) fetchPlaylist_events [OF assms]
        by (simp add: payloadsOf_append extractSegments_logs payloadsOf_iterations)
          (simp add: payloadsOf_def)
      ultimately show ?thesis using False finished(2) by simp
    next
      case cancelled
      with False show ?thesis by auto
    next
      case failed
      with False show ?thesis by auto
    qed
  qed
  from extractSegments_refs [of h cur ?lines] skip rest show ?thesis by blast
qed

lemma sample_broken_playlist:
  "fetchPlaylist sampleCdn brokenUrl = ([Fetch brokenUrl], Inr (brokenUrl, brokenLinePlaylist, 1))"
  by code_simp

lemma sample_broken_run:
  "downloadHlsStream sampleCdn brokenUrl ''broken'' False None =
     ([Fetch brokenUrl, Console ''Invalid segment URL:'', Fetch aUrl, Fetch bUrl,
       Download ''broken.ts'' [0xA1, 0xA2, 0xB1]], Inr True)"
  by code_simp

lemma sample_only_broken_run:
  "downloadHlsStream sampleCdn onlyBrokenUrl ''broken'' False None =
     ([Fetch onlyBrokenUrl, Console ''Invalid segment URL:'', Console ''HLS Download Error:''],
      Inl NoSegmentsFoundInManifest)"
  by code_simp

lemma sample_broken_refs:
  "segmentRefs sampleCdn brokenUrl (str_split CHR 0x0A brokenLinePlaylist) = [aUrl, bUrl]"
  by code_simp

theorem download_skips_unresolvable_witness:
  "fetchPlaylist sampleCdn brokenUrl = ([Fetch brokenUrl], Inr (brokenUrl, brokenLinePlaylist, 1)) \<and>
   resolveUrl sampleCdn (str_trim ''http://'') brokenUrl = None \<and>
   segmentRefs sampleCdn brokenUrl ([''a.ts''] @ ''http://'' # [''b.ts''])
     = segmentRefs sampleCdn brokenUrl [''a.ts''] @ segmentRefs sampleCdn brokenUrl [''b.ts''] \<and>
   segmentRefs sampleCdn brokenUrl (str_split CHR 0x0A brokenLinePlaylist) = [aUrl, bUrl] \<and>
   \<not> aborted None 0 \<and> segmentOk sampleCdn 1 [aUrl, bUrl] 0 \<and>
   \<not> aborted None 1 \<and> segmentOk sampleCdn 1 [aUrl, bUrl] 1 \<and>
   snd (downloadHlsStream sampleCdn brokenUrl ''broken'' False None) = Inr True \<and>
   snd (downloadHlsStream sampleCdn brokenUrl ''broken'' False None) \<noteq> Inl NoSegmentsFoundInManifest \<and>
   fetchesOf (fst (downloadHlsStream sampleCdn brokenUrl ''broken'' False None))
     = fetchesOf [Fetch brokenUrl] @ [aUrl, bUrl] \<and>
   payloadsOf (fst (downloadHlsStream sampleCdn brokenUrl ''broken'' False None))
     = [concat (map (segmentBytes sampleCdn 1 [aUrl, bUrl]) [0..<length [aUrl, bUrl]])]"
proof -
  have none: "resolveUrl sampleCdn (str_trim ''http://'') brokenUrl = None"
    by code_simp
  have ok: "\<not> aborted None 0" "segmentOk sampleCdn 1 [aUrl, bUrl] 0"
    "\<not> aborted None 1" "segmentOk sampleCdn 1 [aUrl, bUrl] 1"
    by code_simp+
  then have all: "\<forall>i<length [aUrl, bUrl]. \<not> aborted None i \<and> segmentOk sampleCdn 1 [aUrl, bUrl] i"
    by (auto simp: less_Suc_eq)
  note t = download_skips_unresolvable [OF sample_broken_playlist,
      of "''http://''" "[''a.ts'']" "[''b.ts'']" "''broken''" False None]
  from t all sample_broken_refs
  have succeeds: "snd (downloadHlsStream sampleCdn brokenUrl ''broken'' False None) = Inr True"
    by simp
  from t succeeds sample_broken_playlist none ok sample_broken_refs
  show ?thesis by simp
qed
lemma iterations_progress:
  "concat (map (iteration True us) [0..<m])
     = concat (map (\<lambda>j. [Progress j (length us), Fetch (us ! j)]) [0..<m])"
  by (induction m) (simp_all add: iteration_def)

text \<open>
  Claim C8, as the code has it. Let steps 1 and 2 end with a media playlist of
  \<open>n > 0\<close> segment URLs, and let the caller pass a progress callback. Then the segment
  phase of the run is, for some \<open>m \<le> n\<close>, the sequence "report \<open>(j, n)\<close>, start the
  fetch of segment \<open>j\<close>" for \<open>j = 0, ..., m - 1\<close>, where the iterations before \<open>m\<close>
  found the signal not aborted and had their fetch answered with \<open>ok\<close>, followed by
  \<^item> the report \<open>(n, n)\<close> and the save, when \<open>m = n\<close>;
  \<^item> nothing but the error, when iteration \<open>m < n\<close> finds the signal aborted;
  \<^item> the report \<open>(m, n)\<close>, the fetch of segment \<open>m\<close> and the error, when that fetch is
    not answered with \<open>ok\<close>.
  So a report \<open>(k, n)\<close> is made when exactly \<open>k\<close> segment fetches have been started and
  all of them have succeeded: with \<open>k \<ge> 1\<close> only after the \<open>k\<close>-th fetch succeeded,
  with \<open>k = 0\<close> before the first fetch; and no report follows a fetch that failed.
\<close>

theorem progress_reports:
  assumes "fetchPlaylist h u = (t1, Inr (cur, text, c))"
    and "extractSegments h cur (str_split CHR 0x0A text) = (us, logs)"
    and "us \<noteq> []"
  shows "\<exists>m\<le>length us.
      (\<forall>j<m. \<not> aborted sig j \<and> segmentOk h c us j) \<and>
      (m = length us \<and> snd (downloadHlsStream h u f True sig) = Inr True \<and>
         fst (downloadHlsStream h u f True sig) =
           t1 @ logs @ concat (map (\<lambda>j. [Progress j (length us), Fetch (us ! j)]) [0..<m])
              @ [Progress (length us) (length us),
                 Download (savedName f) (concat (map (segmentBytes h c us) [0..<m]))]
       \<or> m < length us \<and> aborted sig m \<and>
         snd (downloadHlsStream h u f True sig) = Inl DownloadAborted \<and>
         fst (downloadHlsStream h u f True sig) =
           t1 @ logs @ concat (map (\<lambda>j. [Progress j (length us), Fetch (us ! j)]) [0..<m])
              @ [Console ''HLS Download Error:'']
       \<or> m < length us \<and> \<not> aborted sig m \<and> \<not> segmentOk h c us m \<and>
         (snd (downloadHlsStream h u f True sig) = Inl HostException \<or>
          snd (downloadHlsStream h u f True sig) = Inl (FailedToFetchSegment m)) \<and>
         fst (downloadHlsStream h u f True sig) =
           t1 @ logs @ concat (map (\<lambda>j. [Progress j (length us), Fetch (us ! j)]) [0..<Suc m])
              @ [Console ''HLS Download Error:''])"
proof -
  from download_shape [OF assms, of sig f True]
  obtain m where m: "m \<le> length us" "\<forall>j. j < m \<longrightarrow> \<not> aborted sig j \<and> segmentOk h c us j"
    and cases: "m = length us \<and>
         downloadHlsStream h u f True sig =
           (t1 @ logs @ concat (map (iteration True us) [0..<m])
              @ (if True then [Progress (length us) (length us)] else [])
              @ [Download (savedName f) (concat (map (segmentBytes h c us) [0..<m]))],
            Inr True)
       \<or> m < length us \<and> aborted sig m \<and>
         downloadHlsStream h u f True sig =
           (t1 @ logs @ concat (map (iteration True us) [0..<m]) @ [Console ''HLS Download Error:''],
            Inl DownloadAborted)
       \<or> m < length us \<and> \<not> aborted sig m \<and> \<not> segmentOk h c us m \<and>
         (\<exists>e. downloadHlsStream h u f True sig =
                (t1 @ logs @ concat (map (iteration True us) [0..<m]) @ iteration True us m
                   @ [Console ''HLS Download Error:''], Inl e) \<and>
              (e = HostException \<or> e = FailedToFetchSegment m))"
    by blast
  have last: "concat (map (iteration True us) [0..<m]) @ iteration True us m
      = concat (map (\<lambda>j. [Progress j (length us), Fetch (us ! j)]) [0..<Suc m])"
    by (simp add: iterations_progress) (simp add: iteration_def)
  from cases consider
      (finished) "m = length us" "downloadHlsStream h u f True sig =
           (t1 @ logs @ concat (map (iteration True us) [0..<m])
              @ [Progress (length us) (length us),
                 Download (savedName f) (concat (map (segmentBytes h c us) [0..<m]))],
            Inr True)"
    | (cancelled) "m < length us" "aborted sig m" "downloadHlsStream h u f True sig =
           (t1 @ logs @ concat (map (iteration True us) [0..<m]) @ [Console ''HLS Download Error:''],
            Inl DownloadAborted)"
    | (failed) e where "m < length us" "\<not> aborted sig m" "\<not> segmentOk h c us m"
        "downloadHlsStream h u f True sig =
                (t1 @ logs @ (concat (map (iteration True us) [0..<m]) @ iteration True us m)
                   @ [Console ''HLS Download Error:''], Inl e)"
        "e = HostException \<or> e = FailedToFetchSegment m"
    by (elim disjE conjE exE) simp_all
  then show ?thesis
  proof cases
    case finished
    with m show ?thesis
      by (intro exI [of _ m]) (simp add: iterations_progress)
  next
    case cancelled
    with m show ?thesis
      by (intro exI [of _ m]) (simp add: iterations_progress)
  next
    case failed
    from failed(4) have "fst (downloadHlsStream h u f True sig) =
           t1 @ logs @ concat (map (\<lambda>j. [Progress j (length us), Fetch (us ! j)]) [0..<Suc m])
              @ [Console ''HLS Download Error:'']"
      unfolding last by simp
    moreover from failed(4,5) have "snd (downloadHlsStream h u f True sig) = Inl HostException \<or>
          snd (downloadHlsStream h u f True sig) = Inl (FailedToFetchSegment m)"
      by auto
    ultimately show ?thesis
      using m failed(1,2,3) by (intro exI [of _ m]) simp
  qed
qed

lemma sample_abc_segments:
  "extractSegments sampleCdn abcUrl (str_split CHR 0x0A abcPlaylist) = ([aUrl, bUrl, cUrl], [])"
  by code_simp

theorem progress_reports_witness:
  "fetchPlaylist sampleCdn abcUrl = ([Fetch abcUrl], Inr (abcUrl, abcPlaylist, 1)) \<and>
   extractSegments sampleCdn abcUrl (str_split CHR 0x0A abcPlaylist) = ([aUrl, bUrl, cUrl], []) \<and>
   [aUrl, bUrl, cUrl] \<noteq> [] \<and>
   (\<exists>m\<le>length [aUrl, bUrl, cUrl].
      (\<forall>j<m. \<not> aborted None j \<and> segmentOk sampleCdn 1 [aUrl, bUrl, cUrl] j) \<and>
      (m = length [aUrl, bUrl, cUrl] \<and>
         snd (downloadHlsStream sampleCdn abcUrl ''abc'' True None) = Inr True \<and>
         fst (downloadHlsStream sampleCdn abcUrl ''abc'' True None) =
           [Fetch abcUrl] @ [] @
           concat (map (\<lambda>j. [Progress j (length [aUrl, bUrl, cUrl]), Fetch ([aUrl, bUrl, cUrl] ! j)])
                     [0..<m])
              @ [Progress (length [aUrl, bUrl, cUrl]) (length [aUrl, bUrl, cUrl]),
                 Download (savedName ''abc'')
                   (concat (map (segmentBytes sampleCdn 1 [aUrl, bUrl, cUrl]) [0..<m]))]
       \<or> m < length [aUrl, bUrl, cUrl] \<and> aborted None m \<and>
         snd (downloadHlsStream sampleCdn abcUrl ''abc'' True None) = Inl DownloadAborted \<and>
         fst (downloadHlsStream sampleCdn abcUrl ''abc'' True None) =
           [Fetch abcUrl] @ [] @
           concat (map (\<lambda>j. [Progress j (length [aUrl, bUrl, cUrl]), Fetch ([aUrl, bUrl, cUrl] ! j)])
                     [0..<m])
              @ [Console ''HLS Download Error:'']
       \<or> m < length [aUrl, bUrl, cUrl] \<and> \<not> aborted None m \<and>
         \<not> segmentOk sampleCdn 1 [aUrl, bUrl, cUrl] m \<and>
         (snd (downloadHlsStream sampleCdn abcUrl ''abc'' True None) = Inl HostException \<or>
          snd (downloadHlsStream sampleCdn abcUrl ''abc'' True None) = Inl (FailedToFetchSegment m)) \<and>
         fst (downloadHlsStream sampleCdn abcUrl ''abc'' True None) =
           [Fetch abcUrl] @ [] @
           concat (map (\<lambda>j. [Progress j (length [aUrl, bUrl, cUrl]), Fetch ([aUrl, bUrl, cUrl] ! j)])
                     [0..<Suc m])
              @ [Console ''HLS Download Error:'']))"
proof -
  have ne: "[aUrl, bUrl, cUrl] \<noteq> []" by simp
  note reports = progress_reports [OF sample_abc_playlist sample_abc_segments ne, of None "''abc''"]
  from sample_abc_playlist sample_abc_segments ne reports show ?thesis
    by (intro conjI)
qed

text \<open>
  Claim C8 as stated fails on the sample server: the report \<open>(0, 3)\<close> is made before
  the first segment is requested; and in the run cancelled after two of five segments
  the report \<open>(2, 5)\<close> is never made, although the second fetch succeeded.
\<close>

theorem progress_before_first_fetch:
  "fst (downloadHlsStream sampleCdn abcUrl ''abc'' True None) =
     [Fetch abcUrl, Progress 0 3, Fetch aUrl, Progress 1 3, Fetch bUrl, Progress 2 3, Fetch cUrl,
      Progress 3 3, Download ''abc.ts'' [0xA1, 0xA2, 0xB1, 0xC1, 0xC2, 0xC3]] \<and>
   fst (downloadHlsStream sampleCdn fiveUrl ''five'' True abortedAfterTwo) =
     [Fetch fiveUrl, Progress 0 5, Fetch aUrl, Progress 1 5, Fetch bUrl,
      Console ''HLS Download Error:'']"
  by (simp add: sample_abc_run sample_five_cancelled_run)

end
